theory Spec2Isabelle
  imports Main "HOL-Library.Word" "HOL-Library.Sublist" "HOL-Library.List_Lexorder"
begin

section \<open>The data of \<^verbatim>\<open>bsq.cc\<close>\<close>

text \<open>
  The program searches a memory-mapped, delimiter-separated text file that is sorted by
  one column. A C++ \<^verbatim>\<open>char\<close> is a \<^typ>\<open>char\<close> (eight bits), the mapped file is a
  \<^typ>\<open>string\<close>, and a \<^verbatim>\<open>char const *\<close> into an array is the offset into that array,
  an \<^typ>\<open>int\<close>, so that pointer arithmetic (\<^verbatim>\<open>last + 1\<close>, \<^verbatim>\<open>col_pos[k] - 1\<close>,
  \<^verbatim>\<open>that.last - pos2\<close>) is integer arithmetic with nothing truncated.

  \<^verbatim>\<open>HandleError(msg)\<close> throws \<^verbatim>\<open>std::runtime_error(msg)\<close>: the constructor
  \<open>RuntimeError\<close> carries the message. Two more constructors make undefined behaviour a
  visible result: \<open>BadRead p\<close> is a dereference of offset \<open>p\<close> outside the array, and
  \<open>BadIndex i\<close> is \<^verbatim>\<open>col_pos[i]\<close> outside the deque.
\<close>

datatype error = RuntimeError string | BadRead int | BadIndex int

text \<open>
  \<^verbatim>\<open>struct Config\<close>. The pointers \<^verbatim>\<open>first\<close> and \<^verbatim>\<open>last\<close> delimit the mapping;
  here the record holds the mapped bytes \<open>mmap\<close>, \<^verbatim>\<open>first\<close> is offset 0 and \<^verbatim>\<open>last\<close>
  is the offset one past the last byte, as \<^verbatim>\<open>main\<close> sets them
  (\<^verbatim>\<open>config.last = config.first + sb.st_size\<close>). The field \<^verbatim>\<open>fold\<close> is \<open>fold_flag\<close>.
\<close>

record Config =
  col_sep :: char
  row_sep :: char
  check :: bool
  exact_match :: bool
  fold_flag :: bool
  col :: "8 word"
  mmap :: string

definition Config_first :: "Config \<Rightarrow> int" where
  "Config_first cfg = 0"

definition Config_last :: "Config \<Rightarrow> int" where
  "Config_last cfg = int (length (mmap cfg))"

text \<open>
  \<^verbatim>\<open>struct StringBlock\<close>: two pointers into one array. The array they point into is
  the field \<open>block\<close> (the mapped file for a column, the \<^verbatim>\<open>std::string\<close> for a key).
\<close>

record StringBlock =
  block :: string
  first_p :: int
  last_p :: int

text \<open>\<^verbatim>\<open>explicit StringBlock(std::string const &str)\<close>\<close>

definition StringBlock_of :: "string \<Rightarrow> StringBlock" where
  "StringBlock_of str = \<lparr>block = str, first_p = 0, last_p = int (length str)\<rparr>"

definition Distance :: "StringBlock \<Rightarrow> int" where
  "Distance b = last_p b - first_p b"

text \<open>\<^verbatim>\<open>*pos\<close>: a read of the array at an offset, an error outside the array.\<close>

definition deref :: "string \<Rightarrow> int \<Rightarrow> error + char" where
  "deref mem p = (if 0 \<le> p \<and> p < int (length mem) then Inr (mem ! nat p) else Inl (BadRead p))"

text \<open>
  \<^verbatim>\<open>std::string(first, last)\<close> and \<^verbatim>\<open>os.write(first, last - first)\<close>: the bytes of
  the range, read from the array; an error when the range is not inside the array.
\<close>

definition read_range :: "string \<Rightarrow> int \<Rightarrow> int \<Rightarrow> error + string" where
  "read_range mem a b =
     (if a = b then Inr []
      else if 0 \<le> a \<and> a < b \<and> b \<le> int (length mem)
        then Inr (take (nat (b - a)) (drop (nat a) mem))
      else Inl (BadRead (if 0 \<le> a \<and> a < b then int (length mem) else a)))"

subsection \<open>The two character transforms\<close>

text \<open>
  The target is x86-64 Linux with the GNU C library, and the program never changes the
  locale. There a \<^verbatim>\<open>char\<close> is signed: \<open>char_to_int\<close> is its value as an \<^verbatim>\<open>int\<close>,
  negative for the bytes \<^verbatim>\<open>0x80\<close> to \<^verbatim>\<open>0xFF\<close>. The identity lambda returns the
  \<^verbatim>\<open>char\<close> itself, which the subtraction in \<^verbatim>\<open>Compare\<close> promotes to \<^verbatim>\<open>int\<close>.

  The fold lambda passes the \<^verbatim>\<open>char\<close> to \<^verbatim>\<open>std::toupper(int)\<close>, which is library
  code. ISO C defines it for the values of \<^verbatim>\<open>unsigned char\<close> and for \<^verbatim>\<open>EOF\<close> only, so
  for a negative \<^verbatim>\<open>char\<close> the result is the library's choice. \<open>toupper\<close> is the
  function of the GNU C library in the "C" locale: it looks the values from \<open>-128\<close> to
  \<open>255\<close> up in a table that maps the lower-case letters to the upper-case ones, the
  values from \<open>-128\<close> to \<open>-2\<close> to the byte they stand for (\<open>128\<close> to \<open>254\<close>), and every
  other value, \<open>-1\<close> (\<^verbatim>\<open>EOF\<close>) among them, to itself. So with the fold flag the bytes
  \<^verbatim>\<open>0x80\<close> to \<^verbatim>\<open>0xFE\<close> sort above the ASCII bytes and \<^verbatim>\<open>0xFF\<close> below them, while
  without it all of \<^verbatim>\<open>0x80\<close> to \<^verbatim>\<open>0xFF\<close> sort below.
\<close>

definition char_to_int :: "char \<Rightarrow> int" where
  "char_to_int c = (let n = of_char c in if n < 128 then n else n - 256)"

definition toupper :: "int \<Rightarrow> int" where
  "toupper c =
     (if 97 \<le> c \<and> c \<le> 122 then c - 32
      else if - 128 \<le> c \<and> c \<le> - 2 then c + 256
      else c)"

definition upper :: "char \<Rightarrow> int" where
  "upper c = toupper (char_to_int c)"

definition ident :: "char \<Rightarrow> int" where
  "ident c = char_to_int c"

section \<open>\<^verbatim>\<open>StringBlock::Compare\<close> and \<^verbatim>\<open>StringBlock::IsPrefixOf\<close>\<close>

function StringBlock_Compare_loop ::
  "(char \<Rightarrow> int) \<Rightarrow> StringBlock \<Rightarrow> StringBlock \<Rightarrow> int \<Rightarrow> int \<Rightarrow> error + int" where
  "StringBlock_Compare_loop f this that pos1 pos2 =
     (if pos1 < last_p this \<and> pos2 < last_p that then
        (case deref (block this) pos1 of
           Inl e \<Rightarrow> Inl e
         | Inr c1 \<Rightarrow>
             (case deref (block that) pos2 of
                Inl e \<Rightarrow> Inl e
              | Inr c2 \<Rightarrow>
                  if f c1 = f c2 then StringBlock_Compare_loop f this that (pos1 + 1) (pos2 + 1)
                  else Inr (f c2 - f c1)))
      else Inr ((last_p that - pos2) - (last_p this - pos1)))"
  by pat_completeness auto
termination
  by (relation "measure (\<lambda>(f, this, that, pos1, pos2). nat (last_p this - pos1))") auto

declare StringBlock_Compare_loop.simps [simp del]

definition StringBlock_Compare :: "(char \<Rightarrow> int) \<Rightarrow> StringBlock \<Rightarrow> StringBlock \<Rightarrow> error + int" where
  "StringBlock_Compare f this that = StringBlock_Compare_loop f this that (first_p this) (first_p that)"

function StringBlock_IsPrefixOf_loop ::
  "(char \<Rightarrow> int) \<Rightarrow> StringBlock \<Rightarrow> StringBlock \<Rightarrow> int \<Rightarrow> int \<Rightarrow> error + bool" where
  "StringBlock_IsPrefixOf_loop f this that pos1 pos2 =
     (if pos1 < last_p this \<and> pos2 < last_p that then
        (case deref (block this) pos1 of
           Inl e \<Rightarrow> Inl e
         | Inr c1 \<Rightarrow>
             (case deref (block that) pos2 of
                Inl e \<Rightarrow> Inl e
              | Inr c2 \<Rightarrow>
                  if f c1 = f c2 then StringBlock_IsPrefixOf_loop f this that (pos1 + 1) (pos2 + 1)
                  else Inr False))
      else Inr (pos1 = last_p this))"
  by pat_completeness auto
termination
  by (relation "measure (\<lambda>(f, this, that, pos1, pos2). nat (last_p this - pos1))") auto

declare StringBlock_IsPrefixOf_loop.simps [simp del]

definition StringBlock_IsPrefixOf :: "(char \<Rightarrow> int) \<Rightarrow> StringBlock \<Rightarrow> StringBlock \<Rightarrow> error + bool" where
  "StringBlock_IsPrefixOf f this that =
     (if Distance this > Distance that then Inr False
      else StringBlock_IsPrefixOf_loop f this that (first_p this) (first_p that))"

section \<open>The closures of \<^verbatim>\<open>Run\<close>\<close>

text \<open>
  The deque \<^verbatim>\<open>col_pos\<close> that the closures capture by reference is passed in and
  returned: \<^verbatim>\<open>push_front\<close> is \<open>#\<close>, \<^verbatim>\<open>push_back\<close> appends.

  \<^verbatim>\<open>FindIf\<close> is modelled once for each predicate it is called with. In
  \<open>FindIf_RowBegin\<close> the iterators are reverse iterators: the argument \<open>base\<close> is
  \<^verbatim>\<open>pos.base()\<close>, the byte read is the one before it, and \<^verbatim>\<open>++first\<close> moves
  \<open>base\<close> down. The loops run while \<^verbatim>\<open>first != last\<close>, as the source does; past
  the array the read fails.
\<close>

function FindIf_RowBegin :: "Config \<Rightarrow> int \<Rightarrow> int \<Rightarrow> int list \<Rightarrow> error + (int \<times> int list)" where
  "FindIf_RowBegin cfg base lb col_pos =
     (if base = lb then Inr (base, col_pos)
      else
        (case deref (mmap cfg) (base - 1) of
           Inl e \<Rightarrow> Inl e
         | Inr c \<Rightarrow>
             if c = row_sep cfg then Inr (base, col_pos)
             else FindIf_RowBegin cfg (base - 1) lb
                    (if c = col_sep cfg then base # col_pos else col_pos)))"
  by pat_completeness auto
termination
  by (relation "measure (\<lambda>(cfg, base, lb, col_pos). nat base)")
     (auto simp: deref_def split: if_splits)

declare FindIf_RowBegin.simps [simp del]

definition FindRowBegin :: "Config \<Rightarrow> int \<Rightarrow> int \<Rightarrow> int list \<Rightarrow> error + (int \<times> int list)" where
  "FindRowBegin cfg pos lb col_pos =
     (case FindIf_RowBegin cfg pos lb col_pos of
        Inl e \<Rightarrow> Inl e
      | Inr (first, col_pos') \<Rightarrow> Inr (first, first # col_pos'))"

function FindIf_RowEnd :: "Config \<Rightarrow> int \<Rightarrow> int \<Rightarrow> int list \<Rightarrow> error + (int \<times> int list)" where
  "FindIf_RowEnd cfg pos ub col_pos =
     (if pos = ub then Inr (pos, col_pos)
      else
        (case deref (mmap cfg) pos of
           Inl e \<Rightarrow> Inl e
         | Inr c \<Rightarrow>
             if c = row_sep cfg then Inr (pos, col_pos)
             else FindIf_RowEnd cfg (pos + 1) ub
                    (if c = col_sep cfg then col_pos @ [pos + 1] else col_pos)))"
  by pat_completeness auto
termination
  by (relation "measure (\<lambda>(cfg, pos, ub, col_pos). nat (int (length (mmap cfg)) - pos))")
     (auto simp: deref_def split: if_splits)

declare FindIf_RowEnd.simps [simp del]

definition FindRowEnd :: "Config \<Rightarrow> int \<Rightarrow> int \<Rightarrow> int list \<Rightarrow> error + (int \<times> int list)" where
  "FindRowEnd cfg pos ub col_pos =
     (case FindIf_RowEnd cfg pos ub col_pos of
        Inl e \<Rightarrow> Inl e
      | Inr (last', col_pos') \<Rightarrow> Inr (last', col_pos' @ [last' + 1]))"

text \<open>
  \<^verbatim>\<open>GetColumn(first, last)\<close>. The size test is the source's; \<^verbatim>\<open>config.col\<close> is
  promoted to \<^verbatim>\<open>int\<close>, so \<^verbatim>\<open>config.col + 1\<close> does not wrap. With \<^verbatim>\<open>config.col = 0\<close>
  (which \<^verbatim>\<open>main\<close> refuses) the index \<^verbatim>\<open>config.col - 1\<close> is outside the deque.
\<close>

definition not_enough_columns :: "string \<Rightarrow> error" where
  "not_enough_columns row = RuntimeError (''Not enough columns'' @ [CHR 0x0A] @ row)"

definition GetColumn :: "Config \<Rightarrow> int list \<Rightarrow> int \<Rightarrow> int \<Rightarrow> error + StringBlock" where
  "GetColumn cfg col_pos first last' =
     (if length col_pos < unat (col cfg) + 1 then
        (case read_range (mmap cfg) first last' of
           Inl e \<Rightarrow> Inl e
         | Inr row \<Rightarrow> Inl (not_enough_columns row))
      else if col cfg = 0 then Inl (BadIndex (- 1))
      else Inr \<lparr>block = mmap cfg,
                first_p = col_pos ! (unat (col cfg) - 1),
                last_p = col_pos ! unat (col cfg) - 1\<rparr>)"

definition Compare :: "Config \<Rightarrow> StringBlock \<Rightarrow> StringBlock \<Rightarrow> error + int" where
  "Compare cfg a b =
     (if fold_flag cfg then StringBlock_Compare upper a b
      else StringBlock_Compare ident a b)"

definition IsPrefixOf :: "Config \<Rightarrow> StringBlock \<Rightarrow> StringBlock \<Rightarrow> error + bool" where
  "IsPrefixOf cfg a b =
     (if fold_flag cfg then StringBlock_IsPrefixOf upper a b
      else StringBlock_IsPrefixOf ident a b)"

definition IsExactMatch :: "Config \<Rightarrow> StringBlock \<Rightarrow> StringBlock \<Rightarrow> error + bool" where
  "IsExactMatch cfg key column =
     (case Compare cfg key column of Inl e \<Rightarrow> Inl e | Inr c \<Rightarrow> Inr (c = 0))"

definition IsPrefixMatch :: "Config \<Rightarrow> StringBlock \<Rightarrow> StringBlock \<Rightarrow> error + bool" where
  "IsPrefixMatch cfg key column = IsPrefixOf cfg key column"

section \<open>The loops of \<^verbatim>\<open>Run\<close>\<close>

text \<open>A scan never moves against its direction; the binary search terminates by this.\<close>

lemma FindIf_RowBegin_le:
  "FindIf_RowBegin cfg base lb col_pos = Inr (first, col_pos') \<Longrightarrow> first \<le> base"
proof (induction cfg base lb col_pos rule: FindIf_RowBegin.induct)
  case (1 cfg base lb col_pos)
  note step = "1.prems"[unfolded FindIf_RowBegin.simps[of cfg base]]
  show ?case
  proof (cases "base = lb")
    case True
    with step show ?thesis by simp
  next
    case False
    from step False obtain c where c: "deref (mmap cfg) (base - 1) = Inr c"
      by (auto split: sum.splits)
    show ?thesis
    proof (cases "c = row_sep cfg")
      case True
      with step False c show ?thesis by simp
    next
      case sep: False
      with step False c
      have "FindIf_RowBegin cfg (base - 1) lb
              (if c = col_sep cfg then base # col_pos else col_pos) = Inr (first, col_pos')"
        by simp
      from "1.IH"[OF False c sep this] show ?thesis by simp
    qed
  qed
qed

lemma FindIf_RowEnd_ge:
  "FindIf_RowEnd cfg pos ub col_pos = Inr (last', col_pos') \<Longrightarrow> pos \<le> last'"
proof (induction cfg pos ub col_pos rule: FindIf_RowEnd.induct)
  case (1 cfg pos ub col_pos)
  note step = "1.prems"[unfolded FindIf_RowEnd.simps[of cfg pos]]
  show ?case
  proof (cases "pos = ub")
    case True
    with step show ?thesis by simp
  next
    case False
    from step False obtain c where c: "deref (mmap cfg) pos = Inr c"
      by (auto split: sum.splits)
    show ?thesis
    proof (cases "c = row_sep cfg")
      case True
      with step False c show ?thesis by simp
    next
      case sep: False
      with step False c
      have "FindIf_RowEnd cfg (pos + 1) ub
              (if c = col_sep cfg then col_pos @ [pos + 1] else col_pos) = Inr (last', col_pos')"
        by simp
      from "1.IH"[OF False c sep this] show ?thesis by simp
    qed
  qed
qed

lemma FindRowBegin_le:
  "FindRowBegin cfg pos lb col_pos = Inr (first, col_pos') \<Longrightarrow> first \<le> pos"
  by (auto simp: FindRowBegin_def split: sum.splits dest: FindIf_RowBegin_le)

lemma FindRowEnd_ge:
  "FindRowEnd cfg pos ub col_pos = Inr (last', col_pos') \<Longrightarrow> pos \<le> last'"
  by (auto simp: FindRowEnd_def split: sum.splits dest: FindIf_RowEnd_ge)

text \<open>
  The check branch (\<^verbatim>\<open>if (config.check) { ... }\<close>): the loop over the rows, with the
  key column of the previous row in \<open>prev\<close>.
\<close>

definition unordered :: "string \<Rightarrow> error" where
  "unordered row = RuntimeError (''Unordered at row:'' @ [CHR 0x0A] @ row)"

function check_loop :: "Config \<Rightarrow> int \<Rightarrow> int \<Rightarrow> StringBlock \<Rightarrow> error + unit" where
  "check_loop cfg lb ub prev =
     (if lb < ub then
        (case FindRowEnd cfg lb ub [lb] of
           Inl e \<Rightarrow> Inl e
         | Inr (last', col_pos) \<Rightarrow>
             (case GetColumn cfg col_pos lb last' of
                Inl e \<Rightarrow> Inl e
              | Inr column \<Rightarrow>
                  (case Compare cfg prev column of
                     Inl e \<Rightarrow> Inl e
                   | Inr c \<Rightarrow>
                       if c < 0 then
                         (case read_range (mmap cfg) lb last' of
                            Inl e \<Rightarrow> Inl e
                          | Inr row \<Rightarrow> Inl (unordered row))
                       else check_loop cfg (last' + 1) ub column)))
      else Inr ())"
  by pat_completeness auto
termination
  by (relation "measure (\<lambda>(cfg, lb, ub, prev). nat (ub - lb))")
     (auto dest: FindRowEnd_ge)

declare check_loop.simps [simp del]

text \<open>
  The binary search loop. It returns \<^verbatim>\<open>lb\<close> and \<^verbatim>\<open>ub\<close> as they are when the loop
  is left. \<^verbatim>\<open>(ub - lb) / 2\<close> is computed only when \<^verbatim>\<open>lb < ub\<close>, where the C++
  division and \<open>div\<close> agree. The build modelled is the one with \<^verbatim>\<open>NDEBUG\<close>: nothing
  is written to \<^verbatim>\<open>std::cerr\<close>.
\<close>

function binary_search :: "Config \<Rightarrow> StringBlock \<Rightarrow> int \<Rightarrow> int \<Rightarrow> error + (int \<times> int)" where
  "binary_search cfg search_key lb ub =
     (if lb < ub then
        (let pos = lb + (ub - lb) div 2 in
         case FindRowBegin cfg pos lb [] of
           Inl e \<Rightarrow> Inl e
         | Inr (first, col_pos1) \<Rightarrow>
             (case FindRowEnd cfg pos ub col_pos1 of
                Inl e \<Rightarrow> Inl e
              | Inr (last', col_pos) \<Rightarrow>
                  (case GetColumn cfg col_pos first last' of
                     Inl e \<Rightarrow> Inl e
                   | Inr column \<Rightarrow>
                       (case Compare cfg search_key column of
                          Inl e \<Rightarrow> Inl e
                        | Inr c \<Rightarrow>
                            if c \<ge> 0 then binary_search cfg search_key lb first
                            else binary_search cfg search_key (last' + 1) ub))))
      else Inr (lb, ub))"
  by pat_completeness auto
termination
proof (relation "measure (\<lambda>(cfg, search_key, lb, ub). nat (ub - lb))", goal_cases)
  case 1
  show ?case by simp
next
  case (2 cfg search_key lb ub pos x first col_pos1 y last' col_pos column c)
  from 2 have "first \<le> pos" by (auto dest: FindRowBegin_le)
  with 2 show ?case by auto
next
  case (3 cfg search_key lb ub pos x first col_pos1 y last' col_pos column c)
  from 3 have "pos \<le> last'" by (auto dest: FindRowEnd_ge)
  with 3 show ?case by auto
qed

declare binary_search.simps [simp del]

text \<open>
  The forward scan. \<open>out\<close> is what has been written to \<^verbatim>\<open>std::cout\<close>; the result is
  the output and the exception that ended the scan, if one did: what was written before
  an exception stays written.
\<close>

function scan_loop ::
  "Config \<Rightarrow> StringBlock \<Rightarrow> int \<Rightarrow> int \<Rightarrow> string \<Rightarrow> string \<times> error option" where
  "scan_loop cfg search_key lb ub out =
     (if lb < ub then
        (case FindRowEnd cfg lb ub [lb] of
           Inl e \<Rightarrow> (out, Some e)
         | Inr (last', col_pos) \<Rightarrow>
             (case GetColumn cfg col_pos lb last' of
                Inl e \<Rightarrow> (out, Some e)
              | Inr column \<Rightarrow>
                  (case (if exact_match cfg then IsExactMatch cfg search_key column
                         else IsPrefixMatch cfg search_key column) of
                     Inl e \<Rightarrow> (out, Some e)
                   | Inr is_match \<Rightarrow>
                       if is_match then
                         (case read_range (mmap cfg) lb last' of
                            Inl e \<Rightarrow> (out, Some e)
                          | Inr row \<Rightarrow>
                              scan_loop cfg search_key (last' + 1) ub (out @ row @ [row_sep cfg]))
                       else (out, None))))
      else (out, None))"
  by pat_completeness auto
termination
  by (relation "measure (\<lambda>(cfg, search_key, lb, ub, out). nat (ub - lb))")
     (auto dest: FindRowEnd_ge)

declare scan_loop.simps [simp del]

text \<open>\<^verbatim>\<open>void Run(Config const &config, std::string const &key)\<close>\<close>

definition Run :: "Config \<Rightarrow> string \<Rightarrow> string \<times> error option" where
  "Run cfg key =
     (if Config_first cfg = Config_last cfg then ([], None)
      else
        (let search_key = StringBlock_of key;
             lb = Config_first cfg;
             ub = Config_last cfg
         in if check cfg then
              (case check_loop cfg lb ub \<lparr>block = mmap cfg, first_p = lb, last_p = lb\<rparr> of
                 Inl e \<Rightarrow> ([], Some e)
               | Inr u \<Rightarrow> ([], None))
            else
              (case binary_search cfg search_key lb ub of
                 Inl e \<Rightarrow> ([], Some e)
               | Inr (lb', ub') \<Rightarrow> scan_loop cfg search_key lb' (Config_last cfg) [])))"

section \<open>The bytes of a block and the order of the comparator\<close>

text \<open>
  The notions the properties are stated with. \<open>bytes_in mem a b\<close> is the content of
  the half-open range of offsets \<open>[a, b)\<close> of an array, \<open>bytes\<close> the content of a block,
  and a block is valid when it lies inside its array. \<open>compare_bytes\<close> is the comparison
  of two byte strings that \<^verbatim>\<open>StringBlock::Compare\<close> computes on valid blocks (lemma
  \<open>StringBlock_Compare_bytes\<close>).
\<close>

definition bytes_in :: "string \<Rightarrow> int \<Rightarrow> int \<Rightarrow> string" where
  "bytes_in mem a b = take (nat (b - a)) (drop (nat a) mem)"

definition bytes :: "StringBlock \<Rightarrow> string" where
  "bytes b = bytes_in (block b) (first_p b) (last_p b)"

definition valid_block :: "StringBlock \<Rightarrow> bool" where
  "valid_block b \<longleftrightarrow> 0 \<le> first_p b \<and> first_p b \<le> last_p b \<and> last_p b \<le> int (length (block b))"

fun compare_bytes :: "(char \<Rightarrow> int) \<Rightarrow> string \<Rightarrow> string \<Rightarrow> int" where
  "compare_bytes f [] ys = int (length ys)"
| "compare_bytes f (x # xs) [] = - int (length (x # xs))"
| "compare_bytes f (x # xs) (y # ys) = (if f x = f y then compare_bytes f xs ys else f y - f x)"


text \<open>
  The default configuration (the member initialisers of \<^verbatim>\<open>struct Config\<close>, nothing
  mapped) and the buffer of the specification's scenario, used for the concrete instances.
\<close>

definition Config_default :: Config where
  "Config_default =
     \<lparr>col_sep = CHR 0x09, row_sep = CHR 0x0A, check = False, exact_match = False,
      fold_flag = False, col = 1, mmap = []\<rparr>"

definition fruit :: string where
  "fruit =
     ''apple'' @ [CHR 0x09] @ ''1'' @ [CHR 0x0A] @
     ''apple'' @ [CHR 0x09] @ ''2'' @ [CHR 0x0A] @
     ''banana'' @ [CHR 0x09] @ ''3'' @ [CHR 0x0A] @
     ''banana'' @ [CHR 0x09] @ ''4'' @ [CHR 0x0A] @
     ''cherry'' @ [CHR 0x09] @ ''5'' @ [CHR 0x0A]"

section \<open>Comparison and prefix test\<close>

lemma bytes_in_empty [simp]: "b \<le> a \<Longrightarrow> bytes_in mem a b = []"
  by (simp add: bytes_in_def)

lemma bytes_in_Cons:
  "0 \<le> a \<Longrightarrow> a < b \<Longrightarrow> b \<le> int (length mem) \<Longrightarrow>
   bytes_in mem a b = mem ! nat a # bytes_in mem (a + 1) b"
proof -
  assume a: "0 \<le> a" "a < b" "b \<le> int (length mem)"
  then have lt: "nat a < length mem" by linarith
  from a have n: "nat (b - a) = Suc (nat (b - (a + 1)))" by linarith
  from a have d: "nat (a + 1) = Suc (nat a)" by linarith
  show ?thesis
    unfolding bytes_in_def n d
    by (simp add: Cons_nth_drop_Suc[OF lt, symmetric])
qed

lemma length_bytes_in:
  "0 \<le> a \<Longrightarrow> a \<le> b \<Longrightarrow> b \<le> int (length mem) \<Longrightarrow> length (bytes_in mem a b) = nat (b - a)"
  by (auto simp: bytes_in_def)

lemma Compare_loop_bytes:
  "0 \<le> pos1 \<Longrightarrow> pos1 \<le> last_p this \<Longrightarrow> last_p this \<le> int (length (block this)) \<Longrightarrow>
   0 \<le> pos2 \<Longrightarrow> pos2 \<le> last_p that \<Longrightarrow> last_p that \<le> int (length (block that)) \<Longrightarrow>
   StringBlock_Compare_loop f this that pos1 pos2 =
     Inr (compare_bytes f (bytes_in (block this) pos1 (last_p this))
                          (bytes_in (block that) pos2 (last_p that)))"
proof (induction f this that pos1 pos2 rule: StringBlock_Compare_loop.induct)
  case (1 f this that pos1 pos2)
  show ?case
  proof (cases "pos1 < last_p this \<and> pos2 < last_p that")
    case True
    then have d1: "deref (block this) pos1 = Inr (block this ! nat pos1)"
      and d2: "deref (block that) pos2 = Inr (block that ! nat pos2)"
      using "1.prems" by (auto simp: deref_def)
    have r1: "bytes_in (block this) pos1 (last_p this)
                = block this ! nat pos1 # bytes_in (block this) (pos1 + 1) (last_p this)"
      using True "1.prems" by (intro bytes_in_Cons) auto
    have r2: "bytes_in (block that) pos2 (last_p that)
                = block that ! nat pos2 # bytes_in (block that) (pos2 + 1) (last_p that)"
      using True "1.prems" by (intro bytes_in_Cons) auto
    show ?thesis
    proof (cases "f (block this ! nat pos1) = f (block that ! nat pos2)")
      case eq: True
      have "StringBlock_Compare_loop f this that (pos1 + 1) (pos2 + 1) =
              Inr (compare_bytes f (bytes_in (block this) (pos1 + 1) (last_p this))
                                   (bytes_in (block that) (pos2 + 1) (last_p that)))"
        using True "1.prems" by (intro "1.IH"[OF True d1 d2 eq]) auto
      then show ?thesis
        using True d1 d2 eq r1 r2
        by (subst StringBlock_Compare_loop.simps) simp
    next
      case False
      then show ?thesis
        using True d1 d2 r1 r2
        by (subst StringBlock_Compare_loop.simps) simp
    qed
  next
    case False
    then consider "pos1 = last_p this" | "pos1 < last_p this" "pos2 = last_p that"
      using "1.prems" by linarith
    then show ?thesis
    proof cases
      case 1
      then show ?thesis
        using "1.prems"
        by (subst StringBlock_Compare_loop.simps) (simp add: length_bytes_in)
    next
      case 2
      have r1: "bytes_in (block this) pos1 (last_p this)
                = block this ! nat pos1 # bytes_in (block this) (pos1 + 1) (last_p this)"
        using 2 "1.prems" by (intro bytes_in_Cons) auto
      have "length (bytes_in (block this) pos1 (last_p this)) = nat (last_p this - pos1)"
        using "1.prems" by (intro length_bytes_in) auto
      then have "compare_bytes f (bytes_in (block this) pos1 (last_p this)) [] = - (last_p this - pos1)"
        using 2 by (simp add: r1)
      then show ?thesis
        using 2 by (subst StringBlock_Compare_loop.simps) simp
    qed
  qed
qed

lemma StringBlock_Compare_bytes:
  "valid_block a \<Longrightarrow> valid_block b \<Longrightarrow>
   StringBlock_Compare f a b = Inr (compare_bytes f (bytes a) (bytes b))"
  unfolding StringBlock_Compare_def bytes_def valid_block_def
  by (intro Compare_loop_bytes) auto


lemma compare_bytes_first_diff:
  "i < length xs \<Longrightarrow> i < length ys \<Longrightarrow> (\<forall>j<i. f (xs ! j) = f (ys ! j)) \<Longrightarrow>
   f (xs ! i) \<noteq> f (ys ! i) \<Longrightarrow> compare_bytes f xs ys = f (ys ! i) - f (xs ! i)"
proof (induction f xs ys arbitrary: i rule: compare_bytes.induct)
  case (3 f x xs y ys)
  show ?case
  proof (cases i)
    case 0
    with 3 show ?thesis by simp
  next
    case (Suc k)
    with "3.prems" have hd: "f x = f y" by auto
    from Suc "3.prems" have "\<forall>j<k. f (xs ! j) = f (ys ! j)" by auto
    with "3.IH"[OF hd, of k] Suc "3.prems" hd show ?thesis by simp
  qed
qed simp_all

lemma compare_bytes_tie:
  "(\<forall>j. j < length xs \<and> j < length ys \<longrightarrow> f (xs ! j) = f (ys ! j)) \<Longrightarrow>
   compare_bytes f xs ys = int (length ys) - int (length xs)"
proof (induction f xs ys rule: compare_bytes.induct)
  case (3 f x xs y ys)
  from "3.prems" have hd: "f x = f y" by force
  from "3.prems" have "\<forall>j. j < length xs \<and> j < length ys \<longrightarrow> f (xs ! j) = f (ys ! j)" by force
  with "3.IH"[OF hd] hd show ?case by simp
qed simp_all

lemma compare_bytes_ge0_iff: "0 \<le> compare_bytes f xs ys \<longleftrightarrow> map f xs \<le> map f ys"
  by (induction f xs ys rule: compare_bytes.induct) auto

lemma compare_bytes_eq0_iff: "compare_bytes f xs ys = 0 \<longleftrightarrow> map f xs = map f ys"
  by (induction f xs ys rule: compare_bytes.induct) auto

lemma compare_bytes_gt0_iff: "0 < compare_bytes f xs ys \<longleftrightarrow> map f xs < map f ys"
proof -
  have "0 < compare_bytes f xs ys \<longleftrightarrow> 0 \<le> compare_bytes f xs ys \<and> compare_bytes f xs ys \<noteq> 0"
    by auto
  then show ?thesis
    by (simp add: compare_bytes_ge0_iff compare_bytes_eq0_iff less_le)
qed

lemma compare_bytes_prefix:
  "prefix (map f xs) (map f ys) \<Longrightarrow> compare_bytes f xs ys = int (length ys) - int (length xs)"
  by (induction f xs ys rule: compare_bytes.induct) auto

lemma IsPrefixOf_loop_bytes:
  "0 \<le> pos1 \<Longrightarrow> pos1 \<le> last_p this \<Longrightarrow> last_p this \<le> int (length (block this)) \<Longrightarrow>
   0 \<le> pos2 \<Longrightarrow> pos2 \<le> last_p that \<Longrightarrow> last_p that \<le> int (length (block that)) \<Longrightarrow>
   StringBlock_IsPrefixOf_loop f this that pos1 pos2 =
     Inr (prefix (map f (bytes_in (block this) pos1 (last_p this)))
                 (map f (bytes_in (block that) pos2 (last_p that))))"
proof (induction f this that pos1 pos2 rule: StringBlock_IsPrefixOf_loop.induct)
  case (1 f this that pos1 pos2)
  show ?case
  proof (cases "pos1 < last_p this \<and> pos2 < last_p that")
    case True
    then have d1: "deref (block this) pos1 = Inr (block this ! nat pos1)"
      and d2: "deref (block that) pos2 = Inr (block that ! nat pos2)"
      using "1.prems" by (auto simp: deref_def)
    have r1: "bytes_in (block this) pos1 (last_p this)
                = block this ! nat pos1 # bytes_in (block this) (pos1 + 1) (last_p this)"
      using True "1.prems" by (intro bytes_in_Cons) auto
    have r2: "bytes_in (block that) pos2 (last_p that)
                = block that ! nat pos2 # bytes_in (block that) (pos2 + 1) (last_p that)"
      using True "1.prems" by (intro bytes_in_Cons) auto
    show ?thesis
    proof (cases "f (block this ! nat pos1) = f (block that ! nat pos2)")
      case eq: True
      have "StringBlock_IsPrefixOf_loop f this that (pos1 + 1) (pos2 + 1) =
              Inr (prefix (map f (bytes_in (block this) (pos1 + 1) (last_p this)))
                          (map f (bytes_in (block that) (pos2 + 1) (last_p that))))"
        using True "1.prems" by (intro "1.IH"[OF True d1 d2 eq]) auto
      then show ?thesis
        using True d1 d2 eq r1 r2
        by (subst StringBlock_IsPrefixOf_loop.simps) simp
    next
      case False
      then show ?thesis
        using True d1 d2 r1 r2
        by (subst StringBlock_IsPrefixOf_loop.simps) simp
    qed
  next
    case False
    then consider "pos1 = last_p this" | "pos1 < last_p this" "pos2 = last_p that"
      using "1.prems" by linarith
    then show ?thesis
    proof cases
      case 1
      then show ?thesis
        by (subst StringBlock_IsPrefixOf_loop.simps) simp
    next
      case 2
      have r1: "bytes_in (block this) pos1 (last_p this)
                = block this ! nat pos1 # bytes_in (block this) (pos1 + 1) (last_p this)"
        using 2 "1.prems" by (intro bytes_in_Cons) auto
      show ?thesis
        using 2 by (subst StringBlock_IsPrefixOf_loop.simps) (simp add: r1)
    qed
  qed
qed

lemma StringBlock_IsPrefixOf_bytes:
  assumes "valid_block a" "valid_block b"
  shows "StringBlock_IsPrefixOf f a b = Inr (prefix (map f (bytes a)) (map f (bytes b)))"
proof (cases "Distance a > Distance b")
  case True
  have "length (bytes a) = nat (Distance a)" "length (bytes b) = nat (Distance b)"
    using assms by (auto simp: bytes_def valid_block_def Distance_def length_bytes_in)
  with True have "length (map f (bytes b)) < length (map f (bytes a))"
    using assms by (auto simp: valid_block_def Distance_def)
  then have "\<not> prefix (map f (bytes a)) (map f (bytes b))"
    using prefix_length_le by fastforce
  with True show ?thesis by (simp add: StringBlock_IsPrefixOf_def)
next
  case False
  then show ?thesis
    using assms unfolding StringBlock_IsPrefixOf_def bytes_def valid_block_def
    by (simp add: IsPrefixOf_loop_bytes)
qed

lemma IsPrefixOf_loop_Compare_loop:
  "StringBlock_IsPrefixOf_loop f this that pos1 pos2 = Inr True \<Longrightarrow>
   last_p this - pos1 \<le> last_p that - pos2 \<Longrightarrow>
   \<exists>n. StringBlock_Compare_loop f this that pos1 pos2 = Inr n \<and> 0 \<le> n"
proof (induction f this that pos1 pos2 rule: StringBlock_IsPrefixOf_loop.induct)
  case (1 f this that pos1 pos2)
  note step = "1.prems"(1)[unfolded StringBlock_IsPrefixOf_loop.simps[of f this that pos1 pos2]]
  show ?case
  proof (cases "pos1 < last_p this \<and> pos2 < last_p that")
    case True
    with step obtain c1 c2 where d1: "deref (block this) pos1 = Inr c1"
      and d2: "deref (block that) pos2 = Inr c2"
      by (auto split: sum.splits)
    with step True have eq: "f c1 = f c2" by (auto split: if_splits)
    with step True d1 d2 have "StringBlock_IsPrefixOf_loop f this that (pos1 + 1) (pos2 + 1) = Inr True"
      by simp
    from "1.IH"[OF True d1 d2 eq this] "1.prems"(2)
    obtain n where "StringBlock_Compare_loop f this that (pos1 + 1) (pos2 + 1) = Inr n" "0 \<le> n"
      by auto
    with True d1 d2 eq show ?thesis
      by (subst StringBlock_Compare_loop.simps) simp
  next
    case False
    with step have "pos1 = last_p this" by simp
    with False "1.prems"(2) show ?thesis
      by (subst StringBlock_Compare_loop.simps) simp
  qed
qed

lemma IsPrefixOf_Compare_nonneg:
  "StringBlock_IsPrefixOf f k c = Inr True \<Longrightarrow>
   \<exists>n. StringBlock_Compare f k c = Inr n \<and> 0 \<le> n"
  unfolding StringBlock_IsPrefixOf_def StringBlock_Compare_def
  by (auto simp: Distance_def split: if_splits intro!: IsPrefixOf_loop_Compare_loop)


lemma Compare_transform:
  "Compare cfg a b = StringBlock_Compare (if fold_flag cfg then upper else ident) a b"
  by (simp add: Compare_def)

lemma IsPrefixOf_transform:
  "IsPrefixOf cfg a b = StringBlock_IsPrefixOf (if fold_flag cfg then upper else ident) a b"
  by (simp add: IsPrefixOf_def)

lemma bytes_StringBlock_of [simp]: "bytes (StringBlock_of str) = str"
  by (simp add: bytes_def bytes_in_def StringBlock_of_def)

lemma valid_StringBlock_of [simp]: "valid_block (StringBlock_of str)"
  by (simp add: valid_block_def StringBlock_of_def)

text \<open>
  C6. For valid blocks \<open>a\<close> and \<open>b\<close> and any transform \<open>f\<close> (the two closures of
  \<^verbatim>\<open>Run\<close> pass \<open>ident\<close> and \<open>upper\<close>): if the transformed bytes first differ at index
  \<open>i\<close>, \<^verbatim>\<open>a.Compare(b, f)\<close> returns the transformed byte of \<open>b\<close> minus the transformed
  byte of \<open>a\<close> at \<open>i\<close>; if they do not differ before one block is exhausted, it returns
  what is left of \<open>b\<close> minus what is left of \<open>a\<close>, so that a strict prefix of \<open>b\<close> gets
  a positive result, which is how this comparison reports that \<open>a\<close> sorts before \<open>b\<close>.
\<close>

theorem Compare_first_difference_or_lengths:
  assumes "valid_block a" and "valid_block b"
  shows
    "(\<forall>i. i < length (bytes a) \<and> i < length (bytes b) \<and>
          (\<forall>j<i. f (bytes a ! j) = f (bytes b ! j)) \<and> f (bytes a ! i) \<noteq> f (bytes b ! i) \<longrightarrow>
          StringBlock_Compare f a b = Inr (f (bytes b ! i) - f (bytes a ! i)) \<and>
          (\<exists>n. StringBlock_Compare f a b = Inr n \<and> sgn n = sgn (f (bytes b ! i) - f (bytes a ! i)))) \<and>
     ((\<forall>j. j < length (bytes a) \<and> j < length (bytes b) \<longrightarrow> f (bytes a ! j) = f (bytes b ! j)) \<longrightarrow>
          StringBlock_Compare f a b =
            Inr (int (length (bytes b) - min (length (bytes a)) (length (bytes b))) -
                 int (length (bytes a) - min (length (bytes a)) (length (bytes b))))) \<and>
     (strict_prefix (map f (bytes a)) (map f (bytes b)) \<longrightarrow>
          (\<exists>n. StringBlock_Compare f a b = Inr n \<and> 0 < n)) \<and>
     Compare cfg a b = StringBlock_Compare (if fold_flag cfg then upper else ident) a b"
proof -
  note eq = StringBlock_Compare_bytes[OF assms, of f]
  have diff: "StringBlock_Compare f a b = Inr (f (bytes b ! i) - f (bytes a ! i))"
    if "i < length (bytes a)" "i < length (bytes b)"
       "\<forall>j<i. f (bytes a ! j) = f (bytes b ! j)" "f (bytes a ! i) \<noteq> f (bytes b ! i)" for i
    using that by (simp add: eq compare_bytes_first_diff)
  have tie: "StringBlock_Compare f a b =
            Inr (int (length (bytes b) - min (length (bytes a)) (length (bytes b))) -
                 int (length (bytes a) - min (length (bytes a)) (length (bytes b))))"
    if "\<forall>j. j < length (bytes a) \<and> j < length (bytes b) \<longrightarrow> f (bytes a ! j) = f (bytes b ! j)"
  proof -
    have "compare_bytes f (bytes a) (bytes b) = int (length (bytes b)) - int (length (bytes a))"
      using that by (rule compare_bytes_tie)
    then show ?thesis by (simp add: eq min_def)
  qed
  have pre: "\<exists>n. StringBlock_Compare f a b = Inr n \<and> 0 < n"
    if "strict_prefix (map f (bytes a)) (map f (bytes b))"
  proof -
    from that obtain zs where zs: "map f (bytes b) = map f (bytes a) @ zs" "zs \<noteq> []"
      by (auto simp: strict_prefix_def prefix_def)
    then have p: "prefix (map f (bytes a)) (map f (bytes b))" by simp
    from zs have "length (map f (bytes b)) = length (map f (bytes a)) + length zs"
      by (metis length_append)
    with zs(2) have "length (bytes a) < length (bytes b)" by simp
    with compare_bytes_prefix[OF p] show ?thesis by (simp add: eq)
  qed
  show ?thesis
  proof (intro conjI allI impI)
    fix i
    assume "i < length (bytes a) \<and> i < length (bytes b) \<and>
            (\<forall>j<i. f (bytes a ! j) = f (bytes b ! j)) \<and> f (bytes a ! i) \<noteq> f (bytes b ! i)"
    then have d: "StringBlock_Compare f a b = Inr (f (bytes b ! i) - f (bytes a ! i))"
      using diff[of i] by blast
    then show "StringBlock_Compare f a b = Inr (f (bytes b ! i) - f (bytes a ! i))" .
    from d show "\<exists>n. StringBlock_Compare f a b = Inr n \<and>
                     sgn n = sgn (f (bytes b ! i) - f (bytes a ! i))"
      by blast
  qed (use tie pre Compare_transform in blast)+
qed

theorem Compare_first_difference_or_lengths_witness:
  "valid_block (StringBlock_of ''ab'') \<and> valid_block (StringBlock_of ''aC'') \<and>
   StringBlock_Compare upper (StringBlock_of ''ab'') (StringBlock_of ''aC'') = Inr 1 \<and>
   StringBlock_Compare ident (StringBlock_of ''ab'') (StringBlock_of ''aC'') = Inr (- 31) \<and>
   StringBlock_Compare ident (StringBlock_of ''ab'') (StringBlock_of ''abc'') = Inr 1"
proof -
  have v: "valid_block (StringBlock_of ''ab'')" "valid_block (StringBlock_of ''aC'')"
    "valid_block (StringBlock_of ''abc'')"
    by simp_all
  have lt: "\<And>j::nat. j < 1 \<longleftrightarrow> j = 0" "\<And>j::nat. j < 2 \<longleftrightarrow> j = 0 \<or> j = 1"
    by auto
  note up = Compare_first_difference_or_lengths[OF v(1) v(2), of upper Config_default,
      THEN conjunct1, rule_format, of 1, THEN conjunct1]
  have "StringBlock_Compare upper (StringBlock_of ''ab'') (StringBlock_of ''aC'')
          = Inr (upper (bytes (StringBlock_of ''aC'') ! 1) - upper (bytes (StringBlock_of ''ab'') ! 1))"
    by (rule up) (simp_all add: upper_def toupper_def char_to_int_def)
  then have 1: "StringBlock_Compare upper (StringBlock_of ''ab'') (StringBlock_of ''aC'') = Inr 1"
    by (simp add: upper_def toupper_def char_to_int_def)
  note id = Compare_first_difference_or_lengths[OF v(1) v(2), of ident Config_default,
      THEN conjunct1, rule_format, of 1, THEN conjunct1]
  have "StringBlock_Compare ident (StringBlock_of ''ab'') (StringBlock_of ''aC'')
          = Inr (ident (bytes (StringBlock_of ''aC'') ! 1) - ident (bytes (StringBlock_of ''ab'') ! 1))"
    by (rule id) (simp_all add: ident_def char_to_int_def)
  then have 2: "StringBlock_Compare ident (StringBlock_of ''ab'') (StringBlock_of ''aC'') = Inr (- 31)"
    by (simp add: ident_def char_to_int_def)
  note tie = Compare_first_difference_or_lengths[OF v(1) v(3), of ident Config_default,
      THEN conjunct2, THEN conjunct1, rule_format]
  have "StringBlock_Compare ident (StringBlock_of ''ab'') (StringBlock_of ''abc'') =
          Inr (int (length (bytes (StringBlock_of ''abc'')) -
                    min (length (bytes (StringBlock_of ''ab''))) (length (bytes (StringBlock_of ''abc'')))) -
               int (length (bytes (StringBlock_of ''ab'')) -
                    min (length (bytes (StringBlock_of ''ab''))) (length (bytes (StringBlock_of ''abc'')))))"
    by (rule tie) (auto simp: less_Suc_eq)
  then have 3: "StringBlock_Compare ident (StringBlock_of ''ab'') (StringBlock_of ''abc'') = Inr 1"
    by simp
  from v 1 2 3 show ?thesis by simp
qed

text \<open>
  C9. Whenever \<^verbatim>\<open>k.IsPrefixOf(c, f)\<close> returns true, \<^verbatim>\<open>k.Compare(c, f)\<close> returns
  a value that is not negative, for any transform \<open>f\<close> and so for the two closures
  \<^verbatim>\<open>IsPrefixOf\<close> and \<^verbatim>\<open>Compare\<close> of \<^verbatim>\<open>Run\<close> under either setting of the fold flag.
\<close>

theorem IsPrefixOf_implies_Compare_nonneg:
  "(StringBlock_IsPrefixOf f k c = Inr True \<longrightarrow>
      (\<exists>n. StringBlock_Compare f k c = Inr n \<and> 0 \<le> n)) \<and>
   (IsPrefixOf cfg k c = Inr True \<longrightarrow> (\<exists>n. Compare cfg k c = Inr n \<and> 0 \<le> n))"
  by (simp add: IsPrefixOf_Compare_nonneg Compare_transform IsPrefixOf_transform)

theorem IsPrefixOf_implies_Compare_nonneg_witness:
  "IsPrefixOf (Config_default\<lparr>fold_flag := True\<rparr>) (StringBlock_of ''ban'') (StringBlock_of ''Banana'') = Inr True \<and>
   (\<exists>n. Compare (Config_default\<lparr>fold_flag := True\<rparr>) (StringBlock_of ''ban'') (StringBlock_of ''Banana'') = Inr n \<and> 0 \<le> n)"
proof -
  have t: "IsPrefixOf (Config_default\<lparr>fold_flag := True\<rparr>) (StringBlock_of ''ban'') (StringBlock_of ''Banana'') = Inr True"
    by code_simp
  with IsPrefixOf_implies_Compare_nonneg[of "upper" "StringBlock_of ''ban''" "StringBlock_of ''Banana''"
        "Config_default\<lparr>fold_flag := True\<rparr>"]
  show ?thesis by blast
qed

section \<open>Resolving a row\<close>

text \<open>
  What the two scans compute, stated on offsets as natural numbers. \<open>is_row_end\<close> says
  that \<open>l\<close> is where the forward scan from \<open>pos\<close> stops: the first row separator at or
  after \<open>pos\<close>, or \<open>ub\<close>. \<open>is_row_begin\<close> is the same for the backward scan.
  \<open>col_starts cfg a b\<close> lists the offset after every column separator in \<open>[a, b)\<close>, and
  \<open>row_col_pos cfg f l\<close> is the deque both ways of resolving the row \<open>[f, l)\<close> build.
\<close>

definition col_starts :: "Config \<Rightarrow> nat \<Rightarrow> nat \<Rightarrow> int list" where
  "col_starts cfg a b = map (\<lambda>p. int p + 1) (filter (\<lambda>p. mmap cfg ! p = col_sep cfg) [a..<b])"

definition row_col_pos :: "Config \<Rightarrow> nat \<Rightarrow> nat \<Rightarrow> int list" where
  "row_col_pos cfg f l = int f # col_starts cfg f l @ [int l + 1]"

definition is_row_end :: "Config \<Rightarrow> nat \<Rightarrow> nat \<Rightarrow> nat \<Rightarrow> bool" where
  "is_row_end cfg pos ub l \<longleftrightarrow>
     pos \<le> l \<and> l \<le> ub \<and> (\<forall>p. pos \<le> p \<and> p < l \<longrightarrow> mmap cfg ! p \<noteq> row_sep cfg) \<and>
     (l < ub \<longrightarrow> mmap cfg ! l = row_sep cfg)"

definition is_row_begin :: "Config \<Rightarrow> nat \<Rightarrow> nat \<Rightarrow> nat \<Rightarrow> bool" where
  "is_row_begin cfg pos lb f \<longleftrightarrow>
     lb \<le> f \<and> f \<le> pos \<and> (\<forall>p. f \<le> p \<and> p < pos \<longrightarrow> mmap cfg ! p \<noteq> row_sep cfg) \<and>
     (lb < f \<longrightarrow> mmap cfg ! (f - 1) = row_sep cfg)"

lemma col_starts_empty [simp]: "col_starts cfg a a = []"
  by (simp add: col_starts_def)

lemma col_starts_first:
  "a < b \<Longrightarrow> col_starts cfg a b =
     (if mmap cfg ! a = col_sep cfg then [int a + 1] else []) @ col_starts cfg (Suc a) b"
  by (simp add: col_starts_def upt_conv_Cons)

lemma col_starts_last:
  "a \<le> b \<Longrightarrow> col_starts cfg a (Suc b) =
     col_starts cfg a b @ (if mmap cfg ! b = col_sep cfg then [int b + 1] else [])"
  by (simp add: col_starts_def)

lemma col_starts_append:
  "a \<le> b \<Longrightarrow> b \<le> c \<Longrightarrow> col_starts cfg a b @ col_starts cfg b c = col_starts cfg a c"
  unfolding col_starts_def
  by (metis filter_append map_append upt_add_eq_append le_Suc_ex)

lemma is_row_end_exists: "pos \<le> ub \<Longrightarrow> \<exists>l. is_row_end cfg pos ub l"
proof (induction "ub - pos" arbitrary: pos)
  case 0
  then show ?case by (auto simp: is_row_end_def)
next
  case (Suc n)
  show ?case
  proof (cases "mmap cfg ! pos = row_sep cfg")
    case True
    with Suc.prems have "is_row_end cfg pos ub pos" by (auto simp: is_row_end_def)
    then show ?thesis ..
  next
    case False
    from Suc have "\<exists>l. is_row_end cfg (Suc pos) ub l" by (intro Suc.hyps) auto
    then obtain l where l: "is_row_end cfg (Suc pos) ub l" ..
    have "mmap cfg ! p \<noteq> row_sep cfg" if "pos \<le> p" "p < l" for p
    proof (cases "p = pos")
      case True
      with False show ?thesis by simp
    next
      case ne: False
      with that have "Suc pos \<le> p" by simp
      with l that show ?thesis by (simp add: is_row_end_def)
    qed
    with l have "is_row_end cfg pos ub l"
      by (auto simp: is_row_end_def)
    then show ?thesis ..
  qed
qed

lemma is_row_begin_exists: "lb \<le> pos \<Longrightarrow> \<exists>f. is_row_begin cfg pos lb f"
proof (induction "pos - lb" arbitrary: pos)
  case 0
  then show ?case by (auto simp: is_row_begin_def)
next
  case (Suc n)
  then obtain q where q: "pos = Suc q" "lb \<le> q" by (cases pos) auto
  show ?case
  proof (cases "mmap cfg ! q = row_sep cfg")
    case True
    with Suc.prems q have "is_row_begin cfg pos lb pos" by (auto simp: is_row_begin_def)
    then show ?thesis ..
  next
    case False
    from Suc q have "\<exists>f. is_row_begin cfg q lb f" by (intro Suc.hyps) auto
    then obtain f where f: "is_row_begin cfg q lb f" ..
    with False q have "is_row_begin cfg pos lb f"
      by (auto simp: is_row_begin_def less_Suc_eq)
    then show ?thesis ..
  qed
qed

lemma deref_nat [simp]:
  "p < length mem \<Longrightarrow> deref mem (int p) = Inr (mem ! p)"
  by (simp add: deref_def)

lemma FindIf_RowEnd_scan:
  "is_row_end cfg pos ub l \<Longrightarrow> ub \<le> length (mmap cfg) \<Longrightarrow>
   FindIf_RowEnd cfg (int pos) (int ub) col_pos = Inr (int l, col_pos @ col_starts cfg pos l)"
proof (induction "l - pos" arbitrary: pos col_pos)
  case 0
  then have eq: "l = pos" and b: "pos = ub \<or> mmap cfg ! pos = row_sep cfg" "pos \<le> ub"
    by (auto simp: is_row_end_def)
  show ?case
  proof (cases "pos = ub")
    case True
    with eq show ?thesis by (subst FindIf_RowEnd.simps) simp
  next
    case False
    with b 0 have "pos < length (mmap cfg)" by simp
    with False b eq show ?thesis by (subst FindIf_RowEnd.simps) simp
  qed
next
  case (Suc n)
  then have lt: "pos < l" "l \<le> ub" and ns: "mmap cfg ! pos \<noteq> row_sep cfg"
    by (auto simp: is_row_end_def)
  from Suc.prems lt have nx: "is_row_end cfg (Suc pos) ub l"
    by (auto simp: is_row_end_def)
  from lt Suc.prems have inb: "pos < length (mmap cfg)" "pos \<noteq> ub" by auto
  have "FindIf_RowEnd cfg (int (Suc pos)) (int ub)
          (if mmap cfg ! pos = col_sep cfg then col_pos @ [int pos + 1] else col_pos)
        = Inr (int l, (if mmap cfg ! pos = col_sep cfg then col_pos @ [int pos + 1] else col_pos)
                        @ col_starts cfg (Suc pos) l)"
    using Suc.hyps(2) nx Suc.prems(2) by (intro Suc.hyps(1)) auto
  moreover have "int (Suc pos) = int pos + 1" by simp
  ultimately show ?case
    using inb ns lt
    by (subst FindIf_RowEnd.simps) (simp add: col_starts_first[of pos l] del: of_nat_Suc)
qed

lemma FindIf_RowBegin_scan:
  "is_row_begin cfg pos lb f \<Longrightarrow> pos \<le> length (mmap cfg) \<Longrightarrow>
   FindIf_RowBegin cfg (int pos) (int lb) col_pos = Inr (int f, col_starts cfg f pos @ col_pos)"
proof (induction "pos - f" arbitrary: pos col_pos)
  case 0
  then have eq: "f = pos" and b: "pos = lb \<or> mmap cfg ! (pos - 1) = row_sep cfg" "lb \<le> pos"
    by (auto simp: is_row_begin_def)
  show ?case
  proof (cases "pos = lb")
    case True
    with eq show ?thesis by (subst FindIf_RowBegin.simps) simp
  next
    case False
    with b have "0 < pos" by simp
    then obtain q where q: "pos = Suc q" by (cases pos) auto
    with 0 have "q < length (mmap cfg)" by simp
    then have "deref (mmap cfg) (int pos - 1) = Inr (mmap cfg ! q)"
      using q by simp
    with False b eq q show ?thesis by (subst FindIf_RowBegin.simps) simp
  qed
next
  case (Suc n)
  then have lt: "f < pos" "lb \<le> f" by (auto simp: is_row_begin_def)
  then obtain q where q: "pos = Suc q" "f \<le> q" by (cases pos) auto
  from Suc.prems q have ns: "mmap cfg ! q \<noteq> row_sep cfg"
    by (auto simp: is_row_begin_def)
  from Suc.prems q have nx: "is_row_begin cfg q lb f"
    by (auto simp: is_row_begin_def)
  from q Suc.prems lt have inb: "q < length (mmap cfg)" "pos \<noteq> lb" by auto
  then have d: "deref (mmap cfg) (int pos - 1) = Inr (mmap cfg ! q)"
    using q by simp
  have eq1: "int pos - 1 = int q" using q by simp
  have step: "FindIf_RowBegin cfg (int pos) (int lb) col_pos =
      FindIf_RowBegin cfg (int pos - 1) (int lb)
        (if mmap cfg ! q = col_sep cfg then int pos # col_pos else col_pos)"
    using inb ns d by (subst FindIf_RowBegin.simps) simp
  have IH: "FindIf_RowBegin cfg (int q) (int lb) C = Inr (int f, col_starts cfg f q @ C)" for C
    using Suc.hyps(2) nx Suc.prems(2) q by (intro Suc.hyps(1)) auto
  have cs: "col_starts cfg f pos =
      col_starts cfg f q @ (if mmap cfg ! q = col_sep cfg then [int pos] else [])"
    using col_starts_last[OF q(2), of cfg] q(1) by simp
  show ?case
    unfolding step eq1 IH cs by simp
qed

lemma FindRowEnd_scan:
  "is_row_end cfg pos ub l \<Longrightarrow> ub \<le> length (mmap cfg) \<Longrightarrow>
   FindRowEnd cfg (int pos) (int ub) col_pos =
     Inr (int l, col_pos @ col_starts cfg pos l @ [int l + 1])"
  by (simp add: FindRowEnd_def FindIf_RowEnd_scan)

lemma FindRowBegin_scan:
  "is_row_begin cfg pos lb f \<Longrightarrow> pos \<le> length (mmap cfg) \<Longrightarrow>
   FindRowBegin cfg (int pos) (int lb) col_pos =
     Inr (int f, int f # col_starts cfg f pos @ col_pos)"
  by (simp add: FindRowBegin_def FindIf_RowBegin_scan)

lemma resolve_row:
  assumes "is_row_begin cfg pos lb f" "is_row_end cfg pos ub l" "ub \<le> length (mmap cfg)"
  shows "FindRowBegin cfg (int pos) (int lb) [] = Inr (int f, int f # col_starts cfg f pos)"
    and "FindRowEnd cfg (int pos) (int ub) (int f # col_starts cfg f pos)
           = Inr (int l, row_col_pos cfg f l)"
proof -
  from assms have le: "f \<le> pos" "pos \<le> l" "pos \<le> length (mmap cfg)"
    by (auto simp: is_row_begin_def is_row_end_def)
  from FindRowBegin_scan[OF assms(1) le(3), of "[]"]
  show "FindRowBegin cfg (int pos) (int lb) [] = Inr (int f, int f # col_starts cfg f pos)"
    by simp
  from FindRowEnd_scan[OF assms(2,3), of "int f # col_starts cfg f pos"]
  show "FindRowEnd cfg (int pos) (int ub) (int f # col_starts cfg f pos)
           = Inr (int l, row_col_pos cfg f l)"
    using col_starts_append[OF le(1,2), of cfg] by (simp add: row_col_pos_def)
qed



text \<open>
  C8, as the code has it. \<^verbatim>\<open>FindRowEnd(pos, ub)\<close> returns the offset \<open>l\<close> of the first
  row separator at or after \<open>pos\<close> (\<open>ub\<close> when there is none), so the row's last byte is
  at \<open>l - 1\<close> and the offset one past it is \<open>l\<close>. The entry appended last is \<open>l + 1\<close>,
  one past the separator; \<^verbatim>\<open>GetColumn\<close> subtracts one from it, so when the key column
  is the row's last column its block ends at \<open>l\<close>.
\<close>

theorem FindRowEnd_appends_end_plus_one:
  assumes "pos \<le> ub" and "ub \<le> length (mmap cfg)"
  shows "\<exists>l col_pos'.
           FindRowEnd cfg (int pos) (int ub) col_pos = Inr (int l, col_pos') \<and>
           pos \<le> l \<and> l \<le> ub \<and>
           (\<forall>p. pos \<le> p \<and> p < l \<longrightarrow> mmap cfg ! p \<noteq> row_sep cfg) \<and>
           (l < ub \<longrightarrow> mmap cfg ! l = row_sep cfg) \<and>
           last col_pos' = int l + 1 \<and>
           (col cfg \<noteq> 0 \<and> length col_pos' = unat (col cfg) + 1 \<longrightarrow>
              (\<exists>b. GetColumn cfg col_pos' first (int l) = Inr b \<and> last_p b = int l))"
proof -
  from is_row_end_exists[OF assms(1)] obtain l where l: "is_row_end cfg pos ub l" ..
  let ?cp = "col_pos @ col_starts cfg pos l @ [int l + 1]"
  have r: "FindRowEnd cfg (int pos) (int ub) col_pos = Inr (int l, ?cp)"
    by (rule FindRowEnd_scan[OF l assms(2)])
  have la: "last ?cp = int l + 1" by simp
  have "\<exists>b. GetColumn cfg ?cp first (int l) = Inr b \<and> last_p b = int l"
    if "col cfg \<noteq> 0" "length ?cp = unat (col cfg) + 1"
  proof -
    from that(2) have "?cp ! unat (col cfg) = last ?cp"
      by (subst last_conv_nth) (simp_all del: last_append last_snoc)
    with that la show ?thesis by (simp add: GetColumn_def)
  qed
  with r la l show ?thesis
    unfolding is_row_end_def by blast
qed

theorem FindRowEnd_appends_end_plus_one_witness:
  "FindRowEnd (Config_default\<lparr>mmap := fruit\<rparr>) 16 43 [16] = Inr (24, [16, 23, 25]) \<and>
   last [16, 23, 25 :: int] = 24 + 1"
proof -
  have b: "(16::nat) \<le> 43" "43 \<le> length (mmap (Config_default\<lparr>mmap := fruit\<rparr>))"
    by (simp_all add: fruit_def)
  from FindRowEnd_appends_end_plus_one[OF b, of "[16]"]
  obtain l cp where "FindRowEnd (Config_default\<lparr>mmap := fruit\<rparr>) (int 16) (int 43) [16] = Inr (int l, cp)"
    and "last cp = int l + 1"
    by blast
  moreover have "FindRowEnd (Config_default\<lparr>mmap := fruit\<rparr>) (int 16) (int 43) [16]
                   = Inr (24, [16, 23, 25])"
    by code_simp
  ultimately show ?thesis by simp
qed

theorem FindRowEnd_last_entry_counterexample:
  "FindRowEnd (Config_default\<lparr>mmap := ''a'' @ [CHR 0x0A]\<rparr>) 0 2 [0] = Inr (1, [0, 2]) \<and>
   deref (mmap (Config_default\<lparr>mmap := ''a'' @ [CHR 0x0A]\<rparr>)) 1
     = Inr (row_sep (Config_default\<lparr>mmap := ''a'' @ [CHR 0x0A]\<rparr>)) \<and>
   last [0, 2 :: int] \<noteq> 0 + 1"
  by code_simp

section \<open>Columns of a row\<close>

text \<open>
  \<open>split sep xs\<close> cuts a byte string at every separator; it always has at least one
  field. The columns of a row are its fields between column separators, and the key
  column is the one with the configured 1-based index. \<open>bounds sep off xs\<close> lists, for a
  string that starts at offset \<open>off\<close>, the offset where each field starts and, last, the
  offset two past the end of the string: the content of \<^verbatim>\<open>col_pos\<close> for a resolved row
  (lemma \<open>row_col_pos_bounds\<close>).
\<close>

fun split :: "'a \<Rightarrow> 'a list \<Rightarrow> 'a list list" where
  "split sep [] = [[]]"
| "split sep (x # xs) =
     (if x = sep then [] # split sep xs
      else (case split sep xs of [] \<Rightarrow> [[x]] | f # fs \<Rightarrow> (x # f) # fs))"

fun bounds :: "'a \<Rightarrow> nat \<Rightarrow> 'a list \<Rightarrow> nat list" where
  "bounds sep off [] = [off, Suc off]"
| "bounds sep off (x # xs) =
     (if x = sep then off # bounds sep (Suc off) xs
      else off # tl (bounds sep (Suc off) xs))"

definition key_column :: "Config \<Rightarrow> string \<Rightarrow> string" where
  "key_column cfg row = split (col_sep cfg) row ! (unat (col cfg) - 1)"

definition columns :: "Config \<Rightarrow> string \<Rightarrow> string list" where
  "columns cfg row = split (col_sep cfg) row"

lemma split_not_Nil [simp]: "split sep xs \<noteq> []"
  by (induction xs) (auto split: list.splits)

lemma length_bounds: "length (bounds sep off xs) = Suc (length (split sep xs))"
  by (induction xs arbitrary: off) (auto split: list.splits)

lemma bounds_hd: "bounds sep off xs ! 0 = off"
  by (cases xs) auto

lemma bounds_split:
  "k < length (split sep xs) \<Longrightarrow>
   off \<le> bounds sep off xs ! k \<and>
   bounds sep off xs ! k < bounds sep off xs ! Suc k \<and>
   bounds sep off xs ! Suc k \<le> Suc (off + length xs) \<and>
   split sep xs ! k =
     take (bounds sep off xs ! Suc k - 1 - bounds sep off xs ! k)
          (drop (bounds sep off xs ! k - off) xs)"
proof (induction xs arbitrary: off k)
  case Nil
  then show ?case by simp
next
  case (Cons x xs)
  let ?B = "bounds sep (Suc off) xs"
  obtain f fs where sp: "split sep xs = f # fs"
    by (cases "split sep xs") auto
  have lenB: "length ?B = Suc (Suc (length fs))"
    by (simp add: length_bounds sp)
  have B0: "?B ! 0 = Suc off" by (rule bounds_hd)
  show ?case
  proof (cases "x = sep")
    case True
    show ?thesis
    proof (cases k)
      case 0
      with True B0 show ?thesis by simp
    next
      case (Suc k')
      with Cons.prems True have k': "k' < length (split sep xs)" by simp
      note IH = Cons.IH[OF k', of "Suc off"]
      from IH have ge: "Suc off \<le> ?B ! k'" by simp
      then have "?B ! k' - off = Suc (?B ! k' - Suc off)" by simp
      with IH True Suc show ?thesis by simp
    qed
  next
    case False
    have k0: "0 < length (split sep xs)" by (simp add: sp)
    note IH0 = Cons.IH[OF k0, of "Suc off"]
    show ?thesis
    proof (cases k)
      case 0
      have t1: "tl ?B ! 0 = ?B ! 1" using lenB by (cases ?B) auto
      from IH0 B0 have lt: "Suc off < ?B ! 1" by simp
      then have "?B ! 1 - 1 - off = Suc (?B ! 1 - 1 - Suc off)" by simp
      with IH0 B0 False 0 sp t1 lt show ?thesis by simp
    next
      case (Suc k')
      with Cons.prems False sp have k: "k < length (split sep xs)" by simp
      note IH = Cons.IH[OF k, of "Suc off"]
      have t1: "tl ?B ! k' = ?B ! k" "tl ?B ! k = ?B ! Suc k"
        using lenB Suc by (cases ?B; simp)+
      from IH have ge: "Suc off \<le> ?B ! k" by simp
      then have d: "?B ! k - off = Suc (?B ! k - Suc off)" by simp
      have "split sep (x # xs) ! k = split sep xs ! k"
        using False sp Suc by simp
      with IH False Suc t1 d show ?thesis by simp
    qed
  qed
qed


lemma bytes_in_nat: "bytes_in mem (int a) (int b) = take (b - a) (drop a mem)"
  by (simp add: bytes_in_def nat_diff_distrib' flip: of_nat_diff)

lemma row_col_pos_bounds:
  "f \<le> l \<Longrightarrow> l \<le> length (mmap cfg) \<Longrightarrow>
   row_col_pos cfg f l = map int (bounds (col_sep cfg) f (bytes_in (mmap cfg) (int f) (int l)))"
proof (induction "l - f" arbitrary: f)
  case 0
  then show ?case by (simp add: row_col_pos_def)
next
  case (Suc n)
  then have lt: "f < l" by simp
  let ?B = "bounds (col_sep cfg) (Suc f) (bytes_in (mmap cfg) (int (Suc f)) (int l))"
  have IH: "row_col_pos cfg (Suc f) l = map int ?B"
    using Suc by (intro Suc.hyps(1)) auto
  have c: "bytes_in (mmap cfg) (int f) (int l)
            = mmap cfg ! f # bytes_in (mmap cfg) (int (Suc f)) (int l)"
    using bytes_in_Cons[of "int f" "int l" "mmap cfg"] lt Suc.prems
    by (simp add: add.commute)
  have r: "row_col_pos cfg f l =
      int f # (if mmap cfg ! f = col_sep cfg then row_col_pos cfg (Suc f) l
               else tl (row_col_pos cfg (Suc f) l))"
    using lt by (simp add: row_col_pos_def col_starts_first[of f l])
  show ?case
    unfolding r IH c by (simp add: map_tl)
qed

lemma length_row_col_pos:
  "f \<le> l \<Longrightarrow> l \<le> length (mmap cfg) \<Longrightarrow>
   length (row_col_pos cfg f l) = Suc (length (columns cfg (bytes_in (mmap cfg) (int f) (int l))))"
  by (simp add: row_col_pos_bounds length_bounds columns_def)

lemma GetColumn_too_few:
  assumes "f \<le> l" "l \<le> length (mmap cfg)"
    and "length (columns cfg (bytes_in (mmap cfg) (int f) (int l))) < unat (col cfg)"
  shows "GetColumn cfg (row_col_pos cfg f l) (int f) (int l)
           = Inl (not_enough_columns (bytes_in (mmap cfg) (int f) (int l)))"
proof -
  have "read_range (mmap cfg) (int f) (int l) = Inr (bytes_in (mmap cfg) (int f) (int l))"
    using assms(1,2) by (auto simp: read_range_def bytes_in_def)
  with assms show ?thesis
    by (simp add: GetColumn_def length_row_col_pos)
qed

lemma GetColumn_key:
  assumes "f \<le> l" "l \<le> length (mmap cfg)" "col cfg \<noteq> 0"
    and "unat (col cfg) \<le> length (columns cfg (bytes_in (mmap cfg) (int f) (int l)))"
  shows "\<exists>b. GetColumn cfg (row_col_pos cfg f l) (int f) (int l) = Inr b \<and>
             block b = mmap cfg \<and> valid_block b \<and> int f \<le> first_p b \<and> last_p b \<le> int l \<and>
             bytes b = key_column cfg (bytes_in (mmap cfg) (int f) (int l))"
proof -
  let ?row = "bytes_in (mmap cfg) (int f) (int l)"
  let ?B = "bounds (col_sep cfg) f ?row"
  from assms(3) have pos: "0 < unat (col cfg)" by (simp add: unat_gt_0)
  then obtain k where k: "unat (col cfg) = Suc k" by (cases "unat (col cfg)") auto
  with assms(4) have klt: "k < length (split (col_sep cfg) ?row)" by (simp add: columns_def)
  have lenrow: "length ?row = l - f" using assms(1,2) by (simp add: bytes_in_nat)
  note bs = bounds_split[OF klt, of f]
  from bs have b1: "f \<le> ?B ! k" and b2: "?B ! k < ?B ! Suc k" and b3: "?B ! Suc k \<le> Suc l"
    using lenrow assms(1) by auto
  have lenB: "length ?B = Suc (length (split (col_sep cfg) ?row))" by (rule length_bounds)
  have rcp: "row_col_pos cfg f l = map int ?B" by (rule row_col_pos_bounds[OF assms(1,2)])
  let ?b = "\<lparr>block = mmap cfg, first_p = int (?B ! k), last_p = int (?B ! Suc k) - 1\<rparr>"
  have g: "GetColumn cfg (row_col_pos cfg f l) (int f) (int l) = Inr ?b"
    using assms(3) klt k lenB by (simp add: GetColumn_def rcp)
  have lp: "int (?B ! Suc k) - 1 = int (?B ! Suc k - 1)" using b2 by simp
  have "split (col_sep cfg) ?row ! k
          = take (?B ! Suc k - 1 - ?B ! k) (drop (?B ! k - f) ?row)"
    using bs by simp
  also have "drop (?B ! k - f) ?row = take (l - ?B ! k) (drop (?B ! k) (mmap cfg))"
    using b1 assms(1) by (simp add: bytes_in_nat drop_take)
  also have "take (?B ! Suc k - 1 - ?B ! k) (take (l - ?B ! k) (drop (?B ! k) (mmap cfg)))
          = take (?B ! Suc k - 1 - ?B ! k) (drop (?B ! k) (mmap cfg))"
    using b3 by (simp add: min_def)
  finally have sp: "split (col_sep cfg) ?row ! k
          = take (?B ! Suc k - 1 - ?B ! k) (drop (?B ! k) (mmap cfg))" .
  have "bytes ?b = bytes_in (mmap cfg) (int (?B ! k)) (int (?B ! Suc k - 1))"
    by (simp only: bytes_def lp StringBlock.simps)
  also have "\<dots> = take (?B ! Suc k - 1 - ?B ! k) (drop (?B ! k) (mmap cfg))"
    by (rule bytes_in_nat)
  also have "\<dots> = key_column cfg ?row"
    using sp by (simp add: key_column_def k)
  finally have "bytes ?b = key_column cfg ?row" .
  moreover have "valid_block ?b" using b1 b2 b3 assms(2) by (simp add: valid_block_def)
  moreover have "int f \<le> first_p ?b" "last_p ?b \<le> int l" using b1 b2 b3 by simp_all
  ultimately show ?thesis using g by auto
qed




section \<open>Rows, keys and their order\<close>

text \<open>
  The rows of a buffer are its pieces between row separators; the piece after the last
  separator is a row only when it is not empty. The order of keys is the lexicographic
  order of the transformed bytes, the order \<open>\<le>\<close> of lists of integers; by lemma
  \<open>compare_bytes_ge0_iff\<close> it is what a result \<open>\<ge> 0\<close> of \<^verbatim>\<open>Compare\<close> reports.
  \<open>key_sorted\<close> asks it of every adjacent pair of rows. \<open>check_rows\<close> is the check
  told over the list of rows: the first row that is too short or whose key is below the
  key before it decides the result.
\<close>

definition split_rows :: "'a \<Rightarrow> 'a list \<Rightarrow> 'a list list" where
  "split_rows sep xs = (let segs = split sep xs in if last segs = [] then butlast segs else segs)"

definition rows :: "Config \<Rightarrow> string list" where
  "rows cfg = split_rows (row_sep cfg) (mmap cfg)"

definition transform :: "Config \<Rightarrow> char \<Rightarrow> int" where
  "transform cfg = (if fold_flag cfg then upper else ident)"

definition key_le :: "Config \<Rightarrow> string \<Rightarrow> string \<Rightarrow> bool" where
  "key_le cfg a b \<longleftrightarrow> map (transform cfg) a \<le> map (transform cfg) b"

definition enough_columns :: "Config \<Rightarrow> bool" where
  "enough_columns cfg \<longleftrightarrow> (\<forall>r \<in> set (rows cfg). unat (col cfg) \<le> length (columns cfg r))"

definition key_sorted :: "Config \<Rightarrow> bool" where
  "key_sorted cfg \<longleftrightarrow>
     (\<forall>i. Suc i < length (rows cfg) \<longrightarrow>
        key_le cfg (key_column cfg (rows cfg ! i)) (key_column cfg (rows cfg ! Suc i)))"

fun check_rows :: "Config \<Rightarrow> string \<Rightarrow> string list \<Rightarrow> error option" where
  "check_rows cfg prev [] = None"
| "check_rows cfg prev (r # rs) =
     (if length (columns cfg r) < unat (col cfg) then Some (not_enough_columns r)
      else if compare_bytes (transform cfg) prev (key_column cfg r) < 0 then Some (unordered r)
      else check_rows cfg (key_column cfg r) rs)"


definition fruit_unordered :: string where
  "fruit_unordered =
     ''apple'' @ [CHR 0x09] @ ''1'' @ [CHR 0x0A] @
     ''cherry'' @ [CHR 0x09] @ ''5'' @ [CHR 0x0A] @
     ''banana'' @ [CHR 0x09] @ ''3'' @ [CHR 0x0A] @
     ''banana'' @ [CHR 0x09] @ ''4'' @ [CHR 0x0A]"

text \<open>
  Two rows, the second a single byte above \<^verbatim>\<open>0x7F\<close>: in order for the fold
  transform, which puts that byte above the letters, and out of order for the identity
  transform, where it is negative.
\<close>

definition latin :: string where
  "latin = ''a'' @ [CHR 0x0A] @ [CHR 0xE9] @ [CHR 0x0A]"

section \<open>The check for sortedness\<close>

lemma split_append_sep: "split sep (xs @ sep # ys) = split sep xs @ split sep ys"
  by (induction xs) (auto split: list.splits)

lemma split_no_sep: "sep \<notin> set r \<Longrightarrow> split sep r = [r]"
  by (induction r) auto

lemma split_rows_Nil [simp]: "split_rows sep [] = []"
  by (simp add: split_rows_def)

lemma split_rows_single: "sep \<notin> set r \<Longrightarrow> r \<noteq> [] \<Longrightarrow> split_rows sep r = [r]"
  by (simp add: split_rows_def split_no_sep)

lemma split_rows_Cons:
  "sep \<notin> set r \<Longrightarrow> split_rows sep (r @ sep # ys) = r # split_rows sep ys"
  by (simp add: split_rows_def split_append_sep split_no_sep Let_def)

lemma split_rows_append:
  assumes "xs = [] \<or> last xs = sep"
  shows "split_rows sep (xs @ ys) = split_rows sep xs @ split_rows sep ys"
proof (cases "xs = []")
  case True
  then show ?thesis by simp
next
  case False
  with assms obtain zs where xs: "xs = zs @ [sep]"
    by (metis append_butlast_last_id)
  have 1: "split sep xs = split sep zs @ [[]]"
    using split_append_sep[of sep zs "[]"] xs by simp
  have 2: "split sep (xs @ ys) = split sep zs @ split sep ys"
    using split_append_sep[of sep zs ys] xs by simp
  show ?thesis
    by (simp add: split_rows_def 1 2 Let_def butlast_append)
qed


lemma Compare_cfg_bytes:
  "valid_block a \<Longrightarrow> valid_block b \<Longrightarrow>
   Compare cfg a b = Inr (compare_bytes (transform cfg) (bytes a) (bytes b))"
  by (simp add: Compare_def transform_def StringBlock_Compare_bytes)

lemma IsPrefixOf_cfg_bytes:
  "valid_block a \<Longrightarrow> valid_block b \<Longrightarrow>
   IsPrefixOf cfg a b =
     Inr (prefix (map (transform cfg) (bytes a)) (map (transform cfg) (bytes b)))"
  by (simp add: IsPrefixOf_def transform_def StringBlock_IsPrefixOf_bytes)

lemma row_no_sep:
  assumes "is_row_end cfg pos ub l" "ub \<le> length (mmap cfg)"
  shows "row_sep cfg \<notin> set (bytes_in (mmap cfg) (int pos) (int l))"
proof
  assume "row_sep cfg \<in> set (bytes_in (mmap cfg) (int pos) (int l))"
  then obtain i where i: "i < length (bytes_in (mmap cfg) (int pos) (int l))"
    "bytes_in (mmap cfg) (int pos) (int l) ! i = row_sep cfg"
    by (auto simp: in_set_conv_nth)
  from assms have le: "pos \<le> l" "l \<le> length (mmap cfg)" by (auto simp: is_row_end_def)
  from i(1) le have il: "i < l - pos" by (simp add: bytes_in_nat)
  with i(2) le have "mmap cfg ! (pos + i) = row_sep cfg" by (simp add: bytes_in_nat)
  moreover from il assms(1) have "mmap cfg ! (pos + i) \<noteq> row_sep cfg"
    by (simp add: is_row_end_def)
  ultimately show False by simp
qed

lemma drop_row:
  assumes "is_row_end cfg pos (length (mmap cfg)) l"
  shows "drop pos (mmap cfg) =
           bytes_in (mmap cfg) (int pos) (int l) @
           (if l < length (mmap cfg) then row_sep cfg # drop (Suc l) (mmap cfg) else [])"
proof -
  from assms have le: "pos \<le> l" "l \<le> length (mmap cfg)"
    and sep: "l < length (mmap cfg) \<longrightarrow> mmap cfg ! l = row_sep cfg"
    by (auto simp: is_row_end_def)
  have "drop pos (mmap cfg) = take (l - pos) (drop pos (mmap cfg)) @ drop (l - pos) (drop pos (mmap cfg))"
    by (rule append_take_drop_id[symmetric])
  also have "drop (l - pos) (drop pos (mmap cfg)) = drop l (mmap cfg)"
    using le by simp
  also have "drop l (mmap cfg) =
      (if l < length (mmap cfg) then row_sep cfg # drop (Suc l) (mmap cfg) else [])"
    using sep le by (auto simp flip: Cons_nth_drop_Suc)
  finally show ?thesis by (simp add: bytes_in_nat)
qed

lemma rows_at:
  assumes "is_row_end cfg pos (length (mmap cfg)) l" "pos < length (mmap cfg)"
  shows "split_rows (row_sep cfg) (drop pos (mmap cfg)) =
           bytes_in (mmap cfg) (int pos) (int l) #
           split_rows (row_sep cfg) (drop (Suc l) (mmap cfg))"
proof -
  note ns = row_no_sep[OF assms(1) order_refl]
  from assms have le: "pos \<le> l" "l \<le> length (mmap cfg)" by (auto simp: is_row_end_def)
  show ?thesis
  proof (cases "l < length (mmap cfg)")
    case True
    then show ?thesis
      using drop_row[OF assms(1)] split_rows_Cons[OF ns] by simp
  next
    case False
    with le assms(2) have "bytes_in (mmap cfg) (int pos) (int l) \<noteq> []"
      by (simp add: bytes_in_nat)
    with False show ?thesis
      using drop_row[OF assms(1)] split_rows_single[OF ns] by simp
  qed
qed

lemma read_range_nat:
  "a \<le> b \<Longrightarrow> b \<le> length mem \<Longrightarrow>
   read_range mem (int a) (int b) = Inr (bytes_in mem (int a) (int b))"
  by (auto simp: read_range_def bytes_in_def)

lemma FindRowEnd_from_start:
  assumes "is_row_end cfg lb ub l" "ub \<le> length (mmap cfg)"
  shows "FindRowEnd cfg (int lb) (int ub) [int lb] = Inr (int l, row_col_pos cfg lb l)"
  using FindRowEnd_scan[OF assms, of "[int lb]"] by (simp add: row_col_pos_def)

lemma check_loop_rows:
  assumes c0: "col cfg \<noteq> 0"
  shows "valid_block prev \<Longrightarrow>
     check_loop cfg (int lb) (int (length (mmap cfg))) prev =
       (case check_rows cfg (bytes prev) (split_rows (row_sep cfg) (drop lb (mmap cfg))) of
          None \<Rightarrow> Inr ()
        | Some e \<Rightarrow> Inl e)"
proof (induction "length (mmap cfg) - lb" arbitrary: lb prev rule: less_induct)
  case less
  let ?n = "length (mmap cfg)"
  show ?case
  proof (cases "lb < ?n")
    case False
    then show ?thesis by (subst check_loop.simps) simp
  next
    case True
    from is_row_end_exists[of lb ?n cfg] True obtain l where l: "is_row_end cfg lb ?n l"
      by auto
    then have le: "lb \<le> l" "l \<le> ?n" by (auto simp: is_row_end_def)
    let ?row = "bytes_in (mmap cfg) (int lb) (int l)"
    note fe = FindRowEnd_from_start[OF l order_refl]
    note ra = rows_at[OF l True]
    show ?thesis
    proof (cases "length (columns cfg ?row) < unat (col cfg)")
      case few: True
      from GetColumn_too_few[OF le few] show ?thesis
        using True fe ra few by (subst check_loop.simps) simp
    next
      case enough: False
      then have cols: "unat (col cfg) \<le> length (columns cfg ?row)" by simp
      from GetColumn_key[OF le c0 cols] obtain b
        where b: "GetColumn cfg (row_col_pos cfg lb l) (int lb) (int l) = Inr b"
          "valid_block b" "bytes b = key_column cfg ?row"
        by blast
      note cmp = Compare_cfg_bytes[OF less.prems(1) b(2), of cfg]
      note rd = read_range_nat[OF le]
      have il: "int l + 1 = int (Suc l)" by simp
      show ?thesis
      proof (cases "compare_bytes (transform cfg) (bytes prev) (key_column cfg ?row) < 0")
        case neg: True
        then show ?thesis
          using True fe b cmp rd ra enough by (subst check_loop.simps) simp
      next
        case nonneg: False
        have "check_loop cfg (int (Suc l)) (int ?n) b =
            (case check_rows cfg (bytes b) (split_rows (row_sep cfg) (drop (Suc l) (mmap cfg))) of
               None \<Rightarrow> Inr ()
             | Some e \<Rightarrow> Inl e)"
          using le True b(2) by (intro less.hyps) auto
        then show ?thesis
          using True fe b cmp ra nonneg enough
          by (subst check_loop.simps) (simp add: il del: of_nat_Suc)
      qed
    qed
  qed
qed

lemma Run_check_rows:
  assumes "check cfg" "col cfg \<noteq> 0"
  shows "Run cfg key = ([], check_rows cfg [] (rows cfg))"
proof (cases "mmap cfg = []")
  case True
  then show ?thesis
    by (simp add: Run_def Config_first_def Config_last_def rows_def)
next
  case False
  let ?prev = "\<lparr>block = mmap cfg, first_p = 0, last_p = 0\<rparr>"
  have v: "valid_block ?prev" by (simp add: valid_block_def)
  have e: "bytes ?prev = []" by (simp add: bytes_def)
  from check_loop_rows[OF assms(2) v, of 0] e
  have "check_loop cfg 0 (int (length (mmap cfg))) ?prev =
      (case check_rows cfg [] (rows cfg) of None \<Rightarrow> Inr () | Some e \<Rightarrow> Inl e)"
    by (simp add: rows_def)
  with False assms(1) show ?thesis
    by (simp add: Run_def Config_first_def Config_last_def split: option.splits)
qed

lemma compare_bytes_neg_iff:
  "compare_bytes f xs ys < 0 \<longleftrightarrow> \<not> map f xs \<le> map f ys"
  using compare_bytes_ge0_iff[of f xs ys] by auto

lemma check_rows_None_iff:
  "\<forall>r \<in> set rs. unat (col cfg) \<le> length (columns cfg r) \<Longrightarrow>
   check_rows cfg prev rs = None \<longleftrightarrow>
     successively (key_le cfg) (prev # map (key_column cfg) rs)"
  by (induction rs arbitrary: prev) (auto simp: compare_bytes_neg_iff key_le_def)

lemma key_le_Nil [simp]: "key_le cfg [] k"
  by (simp add: key_le_def)

lemma successively_Nil_Cons:
  "successively (key_le cfg) ([] # ks) \<longleftrightarrow> successively (key_le cfg) ks"
  by (cases ks) auto

lemma key_sorted_successively:
  "key_sorted cfg \<longleftrightarrow> successively (key_le cfg) (map (key_column cfg) (rows cfg))"
  by (auto simp: key_sorted_def successively_conv_nth)



text \<open>
  C4. In check mode, with a key column index of at least 1 and every row having that
  many columns, \<^verbatim>\<open>Run\<close> ends without an exception if and only if the key of every row
  is less than or equal to the key of the row after it, in the order of the transformed
  bytes. The first row is compared with the empty block \<^verbatim>\<open>StringBlock{lb, lb}\<close>; that
  comparison never gives a negative result, so it adds no condition.
\<close>

theorem check_succeeds_iff_adjacent_keys_ordered:
  assumes "check cfg" and "col cfg \<noteq> 0" and "enough_columns cfg"
  shows "(snd (Run cfg key) = None \<longleftrightarrow> key_sorted cfg) \<and>
         (\<forall>c. valid_block c \<longrightarrow>
            (\<exists>n. Compare cfg \<lparr>block = mmap cfg, first_p = Config_first cfg,
                                last_p = Config_first cfg\<rparr> c = Inr n \<and> 0 \<le> n))"
proof -
  from assms(3) have "\<forall>r \<in> set (rows cfg). unat (col cfg) \<le> length (columns cfg r)"
    by (simp add: enough_columns_def)
  then have "check_rows cfg [] (rows cfg) = None \<longleftrightarrow> key_sorted cfg"
    by (simp add: check_rows_None_iff successively_Nil_Cons key_sorted_successively)
  then have 1: "snd (Run cfg key) = None \<longleftrightarrow> key_sorted cfg"
    by (simp add: Run_check_rows[OF assms(1,2)])
  have 2: "\<exists>n. Compare cfg \<lparr>block = mmap cfg, first_p = Config_first cfg,
                              last_p = Config_first cfg\<rparr> c = Inr n \<and> 0 \<le> n"
    if "valid_block c" for c
  proof -
    let ?e = "\<lparr>block = mmap cfg, first_p = Config_first cfg, last_p = Config_first cfg\<rparr>"
    have v: "valid_block ?e" by (simp add: valid_block_def Config_first_def)
    have "bytes ?e = []" by (simp add: bytes_def)
    with Compare_cfg_bytes[OF v that, of cfg] show ?thesis by simp
  qed
  from 1 2 show ?thesis by blast
qed

theorem check_succeeds_iff_adjacent_keys_ordered_witness:
  "snd (Run (Config_default\<lparr>check := True, mmap := fruit\<rparr>) []) = None \<and>
   key_sorted (Config_default\<lparr>check := True, mmap := fruit\<rparr>) \<and>
   snd (Run (Config_default\<lparr>check := True, mmap := fruit_unordered\<rparr>) []) \<noteq> None \<and>
   \<not> key_sorted (Config_default\<lparr>check := True, mmap := fruit_unordered\<rparr>) \<and>
   snd (Run (Config_default\<lparr>check := True, fold_flag := True, mmap := latin\<rparr>) []) = None \<and>
   key_sorted (Config_default\<lparr>check := True, fold_flag := True, mmap := latin\<rparr>) \<and>
   snd (Run (Config_default\<lparr>check := True, mmap := latin\<rparr>) []) \<noteq> None \<and>
   \<not> key_sorted (Config_default\<lparr>check := True, mmap := latin\<rparr>)"
proof -
  let ?c = "Config_default\<lparr>check := True, mmap := fruit\<rparr>"
  let ?d = "Config_default\<lparr>check := True, mmap := fruit_unordered\<rparr>"
  let ?f = "Config_default\<lparr>check := True, fold_flag := True, mmap := latin\<rparr>"
  let ?g = "Config_default\<lparr>check := True, mmap := latin\<rparr>"
  have h: "check ?c" "col ?c \<noteq> 0" "check ?d" "col ?d \<noteq> 0"
    "check ?f" "col ?f \<noteq> 0" "check ?g" "col ?g \<noteq> 0"
    by (simp_all add: Config_default_def)
  have e: "enough_columns ?c" "enough_columns ?d" "enough_columns ?f" "enough_columns ?g"
    by code_simp+
  have r: "snd (Run ?c []) = None" "snd (Run ?d []) \<noteq> None"
    "snd (Run ?f []) = None" "snd (Run ?g []) \<noteq> None"
    by code_simp+
  from check_succeeds_iff_adjacent_keys_ordered[OF h(1,2) e(1), of "[]"]
    check_succeeds_iff_adjacent_keys_ordered[OF h(3,4) e(2), of "[]"]
    check_succeeds_iff_adjacent_keys_ordered[OF h(5,6) e(3), of "[]"]
    check_succeeds_iff_adjacent_keys_ordered[OF h(7,8) e(4), of "[]"] r
  show ?thesis by blast
qed




section \<open>The forward scan and the binary search on any buffer\<close>

text \<open>
  \<open>scan_rows\<close> is the forward scan told over a list of rows: rows are written, each
  followed by the row separator, as long as they match; a row that is too short ends
  the scan with the exception. \<open>matches\<close> is the test of the configured mode on the
  transformed bytes. \<open>raises_only_runtime_error\<close> says of the exception a run ended
  with, if any, that it was thrown by \<^verbatim>\<open>HandleError\<close>: it is not a read outside an
  array.
\<close>

definition unrows :: "Config \<Rightarrow> string list \<Rightarrow> string" where
  "unrows cfg rs = concat (map (\<lambda>r. r @ [row_sep cfg]) rs)"

definition matches :: "Config \<Rightarrow> string \<Rightarrow> string \<Rightarrow> bool" where
  "matches cfg key column =
     (if exact_match cfg then map (transform cfg) key = map (transform cfg) column
      else prefix (map (transform cfg) key) (map (transform cfg) column))"

fun scan_rows :: "Config \<Rightarrow> string \<Rightarrow> string list \<Rightarrow> string \<times> error option" where
  "scan_rows cfg key [] = ([], None)"
| "scan_rows cfg key (r # rs) =
     (if length (columns cfg r) < unat (col cfg) then ([], Some (not_enough_columns r))
      else if matches cfg key (key_column cfg r) then
        (r @ [row_sep cfg] @ fst (scan_rows cfg key rs), snd (scan_rows cfg key rs))
      else ([], None))"

definition raises_only_runtime_error :: "error option \<Rightarrow> bool" where
  "raises_only_runtime_error r \<longleftrightarrow> (\<forall>e. r = Some e \<longrightarrow> (\<exists>msg. e = RuntimeError msg))"

lemma match_cfg_bytes:
  assumes "valid_block a" "valid_block b"
  shows "(if exact_match cfg then IsExactMatch cfg a b else IsPrefixMatch cfg a b)
           = Inr (matches cfg (bytes a) (bytes b))"
  using assms
  by (auto simp: IsExactMatch_def IsPrefixMatch_def matches_def Compare_cfg_bytes
      IsPrefixOf_cfg_bytes compare_bytes_eq0_iff)

lemma scan_loop_rows:
  assumes c0: "col cfg \<noteq> 0" and vk: "valid_block k"
  shows "scan_loop cfg k (int lb) (int (length (mmap cfg))) out =
       (out @ fst (scan_rows cfg (bytes k) (split_rows (row_sep cfg) (drop lb (mmap cfg)))),
        snd (scan_rows cfg (bytes k) (split_rows (row_sep cfg) (drop lb (mmap cfg)))))"
proof (induction "length (mmap cfg) - lb" arbitrary: lb out rule: less_induct)
  case less
  let ?n = "length (mmap cfg)"
  show ?case
  proof (cases "lb < ?n")
    case False
    then show ?thesis by (subst scan_loop.simps) simp
  next
    case True
    from is_row_end_exists[of lb ?n cfg] True obtain l where l: "is_row_end cfg lb ?n l"
      by auto
    then have le: "lb \<le> l" "l \<le> ?n" by (auto simp: is_row_end_def)
    let ?row = "bytes_in (mmap cfg) (int lb) (int l)"
    note fe = FindRowEnd_from_start[OF l order_refl]
    note ra = rows_at[OF l True]
    show ?thesis
    proof (cases "length (columns cfg ?row) < unat (col cfg)")
      case few: True
      from GetColumn_too_few[OF le few] show ?thesis
        using True fe ra few by (subst scan_loop.simps) simp
    next
      case enough: False
      then have cols: "unat (col cfg) \<le> length (columns cfg ?row)" by simp
      from GetColumn_key[OF le c0 cols] obtain b
        where b: "GetColumn cfg (row_col_pos cfg lb l) (int lb) (int l) = Inr b"
          "valid_block b" "bytes b = key_column cfg ?row"
        by blast
      note m = match_cfg_bytes[OF vk b(2), of cfg]
      note rd = read_range_nat[OF le]
      have il: "int l + 1 = int (Suc l)" by simp
      show ?thesis
      proof (cases "matches cfg (bytes k) (key_column cfg ?row)")
        case no: False
        then show ?thesis
          using True fe b m ra enough by (subst scan_loop.simps) simp
      next
        case yes: True
        have "scan_loop cfg k (int (Suc l)) (int ?n) (out @ ?row @ [row_sep cfg]) =
            ((out @ ?row @ [row_sep cfg]) @
               fst (scan_rows cfg (bytes k) (split_rows (row_sep cfg) (drop (Suc l) (mmap cfg)))),
             snd (scan_rows cfg (bytes k) (split_rows (row_sep cfg) (drop (Suc l) (mmap cfg)))))"
          using le True by (intro less.hyps) auto
        then show ?thesis
          using True fe b m ra yes enough rd
          by (subst scan_loop.simps) (simp add: il del: of_nat_Suc)
      qed
    qed
  qed
qed

lemma scan_rows_safe: "raises_only_runtime_error (snd (scan_rows cfg key rs))"
  by (induction rs) (auto simp: raises_only_runtime_error_def not_enough_columns_def)

lemma check_rows_safe: "raises_only_runtime_error (check_rows cfg prev rs)"
  by (induction rs arbitrary: prev)
     (auto simp: raises_only_runtime_error_def not_enough_columns_def unordered_def)

lemma midpoint_int:
  "lb < ub \<Longrightarrow> int lb + (int ub - int lb) div 2 = int (lb + (ub - lb) div 2)"
  by (simp add: zdiv_int of_nat_diff)

lemma binary_search_step:
  assumes "lb < ub" "ub \<le> length (mmap cfg)"
    and "is_row_begin cfg (lb + (ub - lb) div 2) lb f"
    and "is_row_end cfg (lb + (ub - lb) div 2) ub l"
  shows "binary_search cfg k (int lb) (int ub) =
        (case GetColumn cfg (row_col_pos cfg f l) (int f) (int l) of
           Inl e \<Rightarrow> Inl e
         | Inr column \<Rightarrow>
             (case Compare cfg k column of
                Inl e \<Rightarrow> Inl e
              | Inr c \<Rightarrow>
                  if c \<ge> 0 then binary_search cfg k (int lb) (int f)
                  else binary_search cfg k (int (Suc l)) (int ub)))"
proof -
  note rr = resolve_row[OF assms(3,4,2)]
  have il: "int (Suc l) = int l + 1" by simp
  show ?thesis
    unfolding il using assms(1) rr
    by (subst binary_search.simps) (simp add: midpoint_int Let_def)
qed

lemma binary_search_safe:
  assumes c0: "col cfg \<noteq> 0" and vk: "valid_block k"
  shows "ub \<le> length (mmap cfg) \<Longrightarrow>
     (\<exists>msg. binary_search cfg k (int lb) (int ub) = Inl (RuntimeError msg)) \<or>
     (\<exists>lb' ub'. binary_search cfg k (int lb) (int ub) = Inr (int lb', int ub'))"
proof (induction "ub - lb" arbitrary: lb ub rule: less_induct)
  case less
  show ?case
  proof (cases "lb < ub")
    case False
    then show ?thesis by (subst binary_search.simps, subst binary_search.simps) auto
  next
    case True
    let ?pos = "lb + (ub - lb) div 2"
    have pb: "lb \<le> ?pos" "?pos < ub" using True by auto
    from is_row_begin_exists[OF pb(1), of cfg] obtain f where f: "is_row_begin cfg ?pos lb f" ..
    from is_row_end_exists[of ?pos ub cfg] pb obtain l where l: "is_row_end cfg ?pos ub l"
      by auto
    from f l less.prems have le: "f \<le> l" "l \<le> length (mmap cfg)" "f \<le> ?pos" "?pos \<le> l" "lb \<le> f"
      by (auto simp: is_row_begin_def is_row_end_def)
    let ?row = "bytes_in (mmap cfg) (int f) (int l)"
    note unf = binary_search_step[OF True less.prems f l, of k]
    show ?thesis
    proof (cases "length (columns cfg ?row) < unat (col cfg)")
      case few: True
      from GetColumn_too_few[OF le(1,2) few] show ?thesis
        unfolding unf by (simp add: not_enough_columns_def)
    next
      case enough: False
      then have cols: "unat (col cfg) \<le> length (columns cfg ?row)" by simp
      from GetColumn_key[OF le(1,2) c0 cols] obtain b
        where b: "GetColumn cfg (row_col_pos cfg f l) (int f) (int l) = Inr b"
          "valid_block b" "bytes b = key_column cfg ?row"
        by blast
      note cmp = Compare_cfg_bytes[OF vk b(2), of cfg]
      show ?thesis
      proof (cases "0 \<le> compare_bytes (transform cfg) (bytes k) (bytes b)")
        case True
        have "(\<exists>msg. binary_search cfg k (int lb) (int f) = Inl (RuntimeError msg)) \<or>
              (\<exists>lb' ub'. binary_search cfg k (int lb) (int f) = Inr (int lb', int ub'))"
          using le pb less.prems by (intro less.hyps) auto
        with True show ?thesis unfolding unf b(1) by (simp add: cmp)
      next
        case False
        have "(\<exists>msg. binary_search cfg k (int (Suc l)) (int ub) = Inl (RuntimeError msg)) \<or>
              (\<exists>lb' ub'. binary_search cfg k (int (Suc l)) (int ub) = Inr (int lb', int ub'))"
          using le pb less.prems by (intro less.hyps) auto
        with False show ?thesis unfolding unf b(1) by (simp add: cmp)
      qed
    qed
  qed
qed

lemma scans_stay_in_window:
  assumes "lb \<le> pos" "pos \<le> ub" "ub \<le> length (mmap cfg)"
  shows "\<exists>f l. FindRowBegin cfg (int pos) (int lb) cp1
                 = Inr (int f, int f # col_starts cfg f pos @ cp1) \<and> lb \<le> f \<and> f \<le> pos \<and>
               FindRowEnd cfg (int pos) (int ub) cp2
                 = Inr (int l, cp2 @ col_starts cfg pos l @ [int l + 1]) \<and> pos \<le> l \<and> l \<le> ub"
proof -
  from is_row_begin_exists[OF assms(1), of cfg] obtain f where f: "is_row_begin cfg pos lb f" ..
  from is_row_end_exists[OF assms(2), of cfg] obtain l where l: "is_row_end cfg pos ub l" ..
  from assms have "pos \<le> length (mmap cfg)" by simp
  from FindRowBegin_scan[OF f this, of cp1] FindRowEnd_scan[OF l assms(3), of cp2] f l
  show ?thesis unfolding is_row_begin_def is_row_end_def by blast
qed

lemma Run_search_safe:
  assumes "col cfg \<noteq> 0" "\<not> check cfg"
  shows "raises_only_runtime_error (snd (Run cfg key))"
proof (cases "mmap cfg = []")
  case True
  then show ?thesis
    by (simp add: Run_def Config_first_def Config_last_def raises_only_runtime_error_def)
next
  case False
  have vk: "valid_block (StringBlock_of key)" by simp
  from binary_search_safe[OF assms(1) vk order_refl, of 0]
  consider msg where "binary_search cfg (StringBlock_of key) 0 (int (length (mmap cfg)))
                        = Inl (RuntimeError msg)"
    | lb' ub' where "binary_search cfg (StringBlock_of key) 0 (int (length (mmap cfg)))
                        = Inr (int lb', int ub')"
    by auto
  then show ?thesis
  proof cases
    case 1
    with False assms(2) show ?thesis
      by (simp add: Run_def Config_first_def Config_last_def raises_only_runtime_error_def)
  next
    case 2
    with False assms(2) show ?thesis
      using scan_rows_safe[of cfg key "split_rows (row_sep cfg) (drop lb' (mmap cfg))"]
      by (simp add: Run_def Config_first_def Config_last_def scan_loop_rows[OF assms(1) vk])
  qed
qed


text \<open>
  C10. With a key column index of at least 1, \<^verbatim>\<open>Run\<close> never dereferences an offset
  outside the buffer, whatever the buffer, the other settings and the key are: the only
  exceptions are those of \<^verbatim>\<open>HandleError\<close>. The two scans stay in their window: from
  \<open>pos\<close> in \<open>[lb, ub]\<close> they return offsets \<open>f\<close> in \<open>[lb, pos]\<close> and \<open>l\<close> in \<open>[pos, ub]\<close>.
  The instance below is a buffer whose last row has no separator, where \<^verbatim>\<open>FindRowEnd\<close>
  records the offset one past the end of the buffer plus one.
\<close>

theorem Run_never_reads_outside_buffer:
  assumes "col cfg \<noteq> 0"
  shows "snd (Run cfg key) \<noteq> Some (BadRead p) \<and>
         raises_only_runtime_error (snd (Run cfg key)) \<and>
         (\<forall>lb pos ub cp1 cp2. lb \<le> pos \<and> pos \<le> ub \<and> ub \<le> length (mmap cfg) \<longrightarrow>
            (\<exists>f l cp1' cp2'.
               FindRowBegin cfg (int pos) (int lb) cp1 = Inr (int f, cp1') \<and> lb \<le> f \<and> f \<le> pos \<and>
               FindRowEnd cfg (int pos) (int ub) cp2 = Inr (int l, cp2') \<and> pos \<le> l \<and> l \<le> ub))"
proof -
  have r: "raises_only_runtime_error (snd (Run cfg key))"
  proof (cases "check cfg")
    case True
    from Run_check_rows[OF True assms, of key] check_rows_safe[of cfg "[]" "rows cfg"]
    show ?thesis by simp
  next
    case False
    with assms show ?thesis by (rule Run_search_safe)
  qed
  then have "snd (Run cfg key) \<noteq> Some (BadRead p)"
    by (auto simp: raises_only_runtime_error_def)
  moreover have "\<exists>f l cp1' cp2'.
               FindRowBegin cfg (int pos) (int lb) cp1 = Inr (int f, cp1') \<and> lb \<le> f \<and> f \<le> pos \<and>
               FindRowEnd cfg (int pos) (int ub) cp2 = Inr (int l, cp2') \<and> pos \<le> l \<and> l \<le> ub"
    if "lb \<le> pos" "pos \<le> ub" "ub \<le> length (mmap cfg)" for lb pos ub cp1 cp2
    using scans_stay_in_window[OF that, of cp1 cp2] by blast
  ultimately show ?thesis using r by blast
qed

theorem Run_never_reads_outside_buffer_witness:
  "col (Config_default\<lparr>mmap := ''b'' @ [CHR 0x0A] @ ''a''\<rparr>) \<noteq> 0 \<and>
   snd (Run (Config_default\<lparr>mmap := ''b'' @ [CHR 0x0A] @ ''a''\<rparr>) ''c'') \<noteq> Some (BadRead 3) \<and>
   FindRowEnd (Config_default\<lparr>mmap := ''b'' @ [CHR 0x0A] @ ''a''\<rparr>) 2 3 [2] = Inr (3, [2, 4])"
proof -
  have h: "col (Config_default\<lparr>mmap := ''b'' @ [CHR 0x0A] @ ''a''\<rparr>) \<noteq> 0"
    by (simp add: Config_default_def)
  have "FindRowEnd (Config_default\<lparr>mmap := ''b'' @ [CHR 0x0A] @ ''a''\<rparr>) 2 3 [2] = Inr (3, [2, 4])"
    by code_simp
  with Run_never_reads_outside_buffer[OF h, of "''c''" 3] h show ?thesis by blast
qed


section \<open>The search on a sorted buffer\<close>

text \<open>
  \<open>key_of\<close> is the transformed key of a row. \<open>lower_bound cfg key\<close> is the index of
  the first row whose key is not below the search key (the number of rows when there is
  none), and \<open>row_offset cfg i\<close> is where the row with index \<open>i\<close> starts when every
  row before it is followed by one separator byte. \<open>row_start cfg p\<close> says that a row
  can start at offset \<open>p\<close>.
\<close>

definition key_of :: "Config \<Rightarrow> string \<Rightarrow> int list" where
  "key_of cfg r = map (transform cfg) (key_column cfg r)"

definition lower_bound :: "Config \<Rightarrow> string \<Rightarrow> nat" where
  "lower_bound cfg key =
     length (takeWhile (\<lambda>r. key_of cfg r < map (transform cfg) key) (rows cfg))"

definition row_offset :: "Config \<Rightarrow> nat \<Rightarrow> nat" where
  "row_offset cfg i = sum_list (map (\<lambda>r. length r + 1) (take i (rows cfg)))"

definition row_start :: "Config \<Rightarrow> nat \<Rightarrow> bool" where
  "row_start cfg p \<longleftrightarrow> p = 0 \<or> mmap cfg ! (p - 1) = row_sep cfg"

lemma split_snoc_other:
  "y \<noteq> sep \<Longrightarrow>
   split sep (xs @ [y]) = butlast (split sep xs) @ [last (split sep xs) @ [y]]"
  by (induction xs) (auto split: list.splits)

lemma last_split: "last (split sep xs) = [] \<longleftrightarrow> xs = [] \<or> last xs = sep"
proof (cases xs rule: rev_cases)
  case Nil
  then show ?thesis by simp
next
  case (snoc ys y)
  show ?thesis
  proof (cases "y = sep")
    case True
    with snoc show ?thesis using split_append_sep[of sep ys "[]"] by simp
  next
    case False
    with snoc show ?thesis by (simp add: split_snoc_other)
  qed
qed

lemma concat_split: "concat (map (\<lambda>r. r @ [sep]) (split sep xs)) = xs @ [sep]"
  by (induction xs) (auto split: list.splits)

lemma concat_split_rows:
  "concat (map (\<lambda>r. r @ [sep]) (split_rows sep xs))
     = (if xs = [] \<or> last xs = sep then xs else xs @ [sep])"
proof (cases "last (split sep xs) = []")
  case True
  then have "split sep xs = butlast (split sep xs) @ [[]]"
    by (metis append_butlast_last_id split_not_Nil)
  then have "concat (map (\<lambda>r. r @ [sep]) (butlast (split sep xs) @ [[]])) = xs @ [sep]"
    using concat_split[of sep xs] by simp
  then have "concat (map (\<lambda>r. r @ [sep]) (butlast (split sep xs))) = xs" by simp
  with True show ?thesis
    using last_split[of sep xs] by (simp add: split_rows_def)
next
  case False
  then show ?thesis
    using last_split[of sep xs] concat_split[of sep xs] by (simp add: split_rows_def)
qed

lemma length_concat_rows:
  "length (concat (map (\<lambda>r. r @ [sep]) rs)) = sum_list (map (\<lambda>r. length r + 1) rs)"
  by (induction rs) auto

lemma sum_split_rows:
  "sum_list (map (\<lambda>r. length r + 1) (split_rows sep xs))
     = (if xs = [] \<or> last xs = sep then length xs else length xs + 1)"
  using concat_split_rows[of sep xs, THEN arg_cong, of length]
  by (simp add: length_concat_rows split: if_splits)

lemma sum_split_rows_Suc:
  "(\<Sum>r\<leftarrow>split_rows sep xs. Suc (length r))
     = (if xs = [] \<or> last xs = sep then length xs else length xs + 1)"
  using sum_split_rows[of sep xs] by simp

lemma take_terminated:
  "row_start cfg p \<Longrightarrow> p \<le> length (mmap cfg) \<Longrightarrow>
   take p (mmap cfg) = [] \<or> last (take p (mmap cfg)) = row_sep cfg"
proof (cases "p = 0")
  case True
  then show ?thesis by simp
next
  case False
  assume a: "row_start cfg p" "p \<le> length (mmap cfg)"
  with False have ne: "take p (mmap cfg) \<noteq> []" by auto
  from a False have "last (take p (mmap cfg)) = mmap cfg ! (p - 1)"
    by (simp add: last_conv_nth[OF ne] min_def)
  with a False show ?thesis by (simp add: row_start_def)
qed

lemma rows_split_at:
  assumes "row_start cfg p" "p \<le> length (mmap cfg)"
  shows "rows cfg = split_rows (row_sep cfg) (take p (mmap cfg))
                    @ split_rows (row_sep cfg) (drop p (mmap cfg))"
  using split_rows_append[OF take_terminated[OF assms], of "drop p (mmap cfg)"]
  by (simp add: rows_def)

lemma key_sorted_sorted: "key_sorted cfg \<longleftrightarrow> sorted (map (key_of cfg) (rows cfg))"
  by (simp add: key_sorted_def sorted_iff_nth_Suc key_le_def key_of_def)

lemma takeWhile_dropWhile_split:
  assumes "\<forall>a \<in> set A. P a" "\<forall>b \<in> set B. \<not> P b"
  shows "takeWhile P (A @ B) = A" "dropWhile P (A @ B) = B"
proof -
  have "takeWhile P B = []" "dropWhile P B = B"
    using assms(2) by (cases B; simp)+
  with assms(1) show "takeWhile P (A @ B) = A" "dropWhile P (A @ B) = B"
    by simp_all
qed

lemma probe_rows:
  assumes "lb \<le> pos" "pos < ub" "ub \<le> length (mmap cfg)"
    and "row_start cfg lb" "ub = length (mmap cfg) \<or> row_start cfg ub"
    and f: "is_row_begin cfg pos lb f" and l: "is_row_end cfg pos ub l"
  shows "row_start cfg f"
    and "is_row_end cfg f (length (mmap cfg)) l"
    and "f < length (mmap cfg)"
    and "l = ub \<longrightarrow> ub = length (mmap cfg)"
proof -
  let ?n = "length (mmap cfg)"
  from f l have b: "lb \<le> f" "f \<le> pos" "pos \<le> l" "l \<le> ub"
    by (auto simp: is_row_begin_def is_row_end_def)
  from f assms(4) show rs: "row_start cfg f"
    by (cases "lb < f") (auto simp: is_row_begin_def row_start_def)
  show e: "l = ub \<longrightarrow> ub = ?n"
  proof (intro impI, rule ccontr)
    assume "l = ub" "ub \<noteq> ?n"
    with assms(5) have "row_start cfg ub" by simp
    with assms(2) have "mmap cfg ! (ub - 1) = row_sep cfg" by (auto simp: row_start_def)
    moreover from \<open>l = ub\<close> assms(2) l have "mmap cfg ! (ub - 1) \<noteq> row_sep cfg"
      by (auto simp: is_row_end_def)
    ultimately show False by simp
  qed
  have ns: "mmap cfg ! p \<noteq> row_sep cfg" if "f \<le> p" "p < l" for p
  proof (cases "p < pos")
    case True
    with that f show ?thesis by (simp add: is_row_begin_def)
  next
    case False
    with that l show ?thesis by (simp add: is_row_end_def)
  qed
  have sep: "mmap cfg ! l = row_sep cfg" if "l < ?n"
  proof -
    from that e b have "l < ub" by (cases "l = ub") auto
    with l show ?thesis by (simp add: is_row_end_def)
  qed
  from b assms(3) ns sep show "is_row_end cfg f ?n l"
    by (auto simp: is_row_end_def)
  from b assms show "f < ?n" by simp
qed

lemma take_Suc_row:
  assumes l: "is_row_end cfg f (length (mmap cfg)) l" and lt: "l < length (mmap cfg)"
    and rs: "row_start cfg f"
  shows "split_rows (row_sep cfg) (take (Suc l) (mmap cfg))
           = split_rows (row_sep cfg) (take f (mmap cfg)) @ [bytes_in (mmap cfg) (int f) (int l)]"
proof -
  let ?row = "bytes_in (mmap cfg) (int f) (int l)"
  from l have le: "f \<le> l" by (simp add: is_row_end_def)
  from l lt have sep: "mmap cfg ! l = row_sep cfg" by (simp add: is_row_end_def)
  have "take (Suc l) (mmap cfg) = take l (mmap cfg) @ [row_sep cfg]"
    using lt sep by (simp add: take_Suc_conv_app_nth)
  also have "take l (mmap cfg) = take f (mmap cfg) @ ?row"
    using le take_add[of f "l - f" "mmap cfg"] by (simp add: bytes_in_nat)
  finally have t: "take (Suc l) (mmap cfg) = take f (mmap cfg) @ (?row @ [row_sep cfg])"
    by simp
  from le lt have "f \<le> length (mmap cfg)" by simp
  note tt = take_terminated[OF rs this]
  note ns = row_no_sep[OF l order_refl]
  show ?thesis
    unfolding t using split_rows_append[OF tt] split_rows_Cons[OF ns, of "[]"] by simp
qed


lemma row_offset_prefix:
  assumes "rows cfg = A @ B"
  shows "row_offset cfg (length A) = sum_list (map (\<lambda>r. length r + 1) A)"
  by (simp add: row_offset_def assms)

lemma binary_search_lower_bound:
  assumes c0: "col cfg \<noteq> 0" and en: "enough_columns cfg" and so: "key_sorted cfg"
  shows "lb \<le> ub \<Longrightarrow> ub \<le> length (mmap cfg) \<Longrightarrow> row_start cfg lb \<Longrightarrow>
     ub = length (mmap cfg) \<or> row_start cfg ub \<Longrightarrow>
     \<forall>r \<in> set (split_rows (row_sep cfg) (take lb (mmap cfg))).
        key_of cfg r < map (transform cfg) key \<Longrightarrow>
     \<forall>r \<in> set (split_rows (row_sep cfg) (drop ub (mmap cfg))).
        \<not> key_of cfg r < map (transform cfg) key \<Longrightarrow>
     binary_search cfg (StringBlock_of key) (int lb) (int ub) =
       Inr (int (row_offset cfg (lower_bound cfg key)),
            int (min (row_offset cfg (lower_bound cfg key)) (length (mmap cfg)))) \<and>
     split_rows (row_sep cfg) (drop (row_offset cfg (lower_bound cfg key)) (mmap cfg)) =
       dropWhile (\<lambda>r. key_of cfg r < map (transform cfg) key) (rows cfg)"
proof (induction "ub - lb" arbitrary: lb ub rule: less_induct)
  case less
  let ?n = "length (mmap cfg)"
  let ?P = "\<lambda>r. key_of cfg r < map (transform cfg) key"
  let ?LB = "row_offset cfg (lower_bound cfg key)"
  note sorted = so[unfolded key_sorted_sorted]
  show ?case
  proof (cases "lb < ub")
    case False
    with less.prems(1) have eq: "ub = lb" by simp
    let ?A = "split_rows (row_sep cfg) (take lb (mmap cfg))"
    let ?B = "split_rows (row_sep cfg) (drop lb (mmap cfg))"
    from less.prems(2) eq have lbn: "lb \<le> ?n" by simp
    have rows: "rows cfg = ?A @ ?B" by (rule rows_split_at[OF less.prems(3) lbn])
    from less.prems(5,6) eq have td: "takeWhile ?P (?A @ ?B) = ?A" "dropWhile ?P (?A @ ?B) = ?B"
      by (intro takeWhile_dropWhile_split; simp)+
    have "lower_bound cfg key = length ?A"
      by (simp only: lower_bound_def rows td)
    then have "?LB = sum_list (map (\<lambda>r. length r + 1) ?A)"
      using row_offset_prefix[OF rows] by simp
    also have "\<dots> = lb"
      using take_terminated[OF less.prems(3) lbn] lbn by (auto simp: sum_split_rows_Suc)
    finally have LB: "?LB = lb" .
    have "binary_search cfg (StringBlock_of key) (int lb) (int ub) = Inr (int lb, int ub)"
      using eq by (subst binary_search.simps) simp
    with LB eq lbn td rows show ?thesis by simp
  next
    case True
    let ?pos = "lb + (ub - lb) div 2"
    have pb: "lb \<le> ?pos" "?pos < ub" using True by auto
    from is_row_begin_exists[OF pb(1), of cfg] obtain f where f: "is_row_begin cfg ?pos lb f" ..
    from is_row_end_exists[of ?pos ub cfg] pb obtain l where l: "is_row_end cfg ?pos ub l"
      by auto
    note pr = probe_rows[OF pb less.prems(2,3,4) f l]
    from f l less.prems have le: "f \<le> l" "l \<le> ?n" "f \<le> ?pos" "?pos \<le> l" "lb \<le> f" "l \<le> ub"
      by (auto simp: is_row_begin_def is_row_end_def)
    let ?row = "bytes_in (mmap cfg) (int f) (int l)"
    let ?A = "split_rows (row_sep cfg) (take f (mmap cfg))"
    let ?B = "split_rows (row_sep cfg) (drop (Suc l) (mmap cfg))"
    have fn: "f \<le> ?n" using pr(3) by simp
    have dropf: "split_rows (row_sep cfg) (drop f (mmap cfg)) = ?row # ?B"
      by (rule rows_at[OF pr(2,3)])
    have rows: "rows cfg = ?A @ ?row # ?B"
      using rows_split_at[OF pr(1) fn] dropf by simp
    from sorted rows have sA: "\<forall>a \<in> set ?A. key_of cfg a \<le> key_of cfg ?row"
      and sB: "\<forall>b \<in> set ?B. key_of cfg ?row \<le> key_of cfg b"
      by (auto simp: sorted_append)
    from en rows have cols: "unat (col cfg) \<le> length (columns cfg ?row)"
      by (simp add: enough_columns_def)
    from GetColumn_key[OF le(1,2) c0 cols] obtain b
      where b: "GetColumn cfg (row_col_pos cfg f l) (int f) (int l) = Inr b"
        "valid_block b" "bytes b = key_column cfg ?row"
      by blast
    have cmp: "Compare cfg (StringBlock_of key) b
                 = Inr (compare_bytes (transform cfg) key (key_column cfg ?row))"
      using Compare_cfg_bytes[OF valid_StringBlock_of[of key] b(2), of cfg] b(3) by simp
    note unf = binary_search_step[OF True less.prems(2) f l, of "StringBlock_of key"]
    show ?thesis
    proof (cases "0 \<le> compare_bytes (transform cfg) key (key_column cfg ?row)")
      case ge: True
      then have kr: "map (transform cfg) key \<le> key_of cfg ?row"
        by (simp add: compare_bytes_ge0_iff key_of_def)
      have step: "binary_search cfg (StringBlock_of key) (int lb) (int ub)
                    = binary_search cfg (StringBlock_of key) (int lb) (int f)"
        unfolding unf b(1) using ge by (simp add: cmp)
      have "\<forall>r \<in> set (split_rows (row_sep cfg) (drop f (mmap cfg))). \<not> ?P r"
        unfolding dropf using kr sB by auto
      with le pb less.prems pr(1) fn show ?thesis
        unfolding step by (intro less.hyps) auto
    next
      case lt: False
      then have kr: "key_of cfg ?row < map (transform cfg) key"
        using compare_bytes_ge0_iff[of "transform cfg" key "key_column cfg ?row"]
        by (simp add: key_of_def)
      have step: "binary_search cfg (StringBlock_of key) (int lb) (int ub)
                    = binary_search cfg (StringBlock_of key) (int (Suc l)) (int ub)"
        unfolding unf b(1) using lt by (simp add: cmp)
      show ?thesis
      proof (cases "l < ub")
        case inner: True
        then have ln: "l < ?n" using less.prems(2) by simp
        with pr(2) have sep: "mmap cfg ! l = row_sep cfg" by (simp add: is_row_end_def)
        then have rs: "row_start cfg (Suc l)" by (simp add: row_start_def)
        have "split_rows (row_sep cfg) (take (Suc l) (mmap cfg)) = ?A @ [?row]"
          by (rule take_Suc_row[OF pr(2) ln pr(1)])
        then have "\<forall>r \<in> set (split_rows (row_sep cfg) (take (Suc l) (mmap cfg))). ?P r"
          using kr sA by auto
        with inner le pb less.prems rs show ?thesis
          unfolding step by (intro less.hyps) auto
      next
        case False
        with le pr(4) have lu: "l = ub" "ub = ?n" by auto
        have B: "?B = []" using lu by simp
        have allP: "\<forall>r \<in> set (rows cfg). ?P r"
          unfolding rows B using kr sA by auto
        then have td: "takeWhile ?P (rows cfg) = rows cfg" "dropWhile ?P (rows cfg) = []"
          by simp_all
        have ne: "mmap cfg \<noteq> []" using pr(3) by auto
        have "f \<le> ?n - 1" "?n - 1 < l" using pr(3) lu by auto
        with pr(2) have "mmap cfg ! (?n - 1) \<noteq> row_sep cfg"
          unfolding is_row_end_def by blast
        with ne have nl: "last (mmap cfg) \<noteq> row_sep cfg"
          by (simp add: last_conv_nth)
        have "lower_bound cfg key = length (rows cfg)"
          by (simp only: lower_bound_def td)
        then have "?LB = sum_list (map (\<lambda>r. length r + 1) (rows cfg))"
          by (simp add: row_offset_def)
        also have "\<dots> = Suc ?n"
          using ne nl by (simp add: rows_def sum_split_rows_Suc)
        finally have LB: "?LB = Suc ?n" .
        have "binary_search cfg (StringBlock_of key) (int (Suc l)) (int ub)
                = Inr (int (Suc l), int ub)"
          using lu by (subst binary_search.simps) simp
        with LB lu show ?thesis unfolding step td(2) by simp
      qed
    qed
  qed
qed


lemma prefix_imp_le: "prefix k x \<Longrightarrow> k \<le> (x :: int list)"
proof (induction k arbitrary: x)
  case Nil
  then show ?case by simp
next
  case (Cons a k)
  then obtain x' where "x = a # x'" "prefix k x'" by (cases x) auto
  with Cons.IH[of x'] show ?case by simp
qed

lemma prefix_between:
  "k \<le> y \<Longrightarrow> y \<le> z \<Longrightarrow> prefix k z \<Longrightarrow> prefix k (y :: int list)"
proof (induction k arbitrary: y z)
  case Nil
  then show ?case by simp
next
  case (Cons a k)
  from Cons.prems(3) obtain z' where z: "z = a # z'" "prefix k z'" by (cases z) auto
  from Cons.prems(1) obtain b y' where y: "y = b # y'" by (cases y) auto
  from Cons.prems(1) y have 1: "a < b \<or> (a = b \<and> k \<le> y')" by simp
  from Cons.prems(2) y z have 2: "b < a \<or> (b = a \<and> y' \<le> z')" by simp
  from 1 2 have "a = b" "k \<le> y'" "y' \<le> z'" by auto
  with Cons.IH[of y' z'] z y show ?case by simp
qed

lemma filter_takeWhile_sorted:
  fixes g :: "'a \<Rightarrow> int list"
  assumes A2: "\<And>a b. \<not> P a \<Longrightarrow> g a \<le> g b \<Longrightarrow> M b \<Longrightarrow> M a"
  shows "sorted (map g rs) \<Longrightarrow> \<forall>r \<in> set rs. \<not> P r \<Longrightarrow> filter M rs = takeWhile M rs"
proof (induction rs)
  case Nil
  then show ?case by simp
next
  case (Cons r rs)
  show ?case
  proof (cases "M r")
    case True
    with Cons show ?thesis by simp
  next
    case False
    have "\<not> M x" if "x \<in> set rs" for x
    proof
      assume "M x"
      moreover from Cons.prems that have "g r \<le> g x" "\<not> P r" by auto
      ultimately have "M r" using A2 by blast
      with False show False ..
    qed
    with False show ?thesis by (simp add: filter_empty_conv)
  qed
qed

lemma filter_takeWhile_dropWhile_sorted:
  fixes g :: "'a \<Rightarrow> int list"
  assumes A1: "\<And>r. M r \<Longrightarrow> \<not> P r"
    and A2: "\<And>a b. \<not> P a \<Longrightarrow> g a \<le> g b \<Longrightarrow> M b \<Longrightarrow> M a"
    and A3: "\<And>a b. P b \<Longrightarrow> g a \<le> g b \<Longrightarrow> P a"
  shows "sorted (map g rs) \<Longrightarrow> filter M rs = takeWhile M (dropWhile P rs)"
proof (induction rs)
  case Nil
  then show ?case by simp
next
  case (Cons r rs)
  show ?case
  proof (cases "P r")
    case True
    with A1 have "\<not> M r" by blast
    with True Cons show ?thesis by simp
  next
    case False
    have "\<not> P x" if "x \<in> set rs" for x
    proof
      assume "P x"
      moreover from Cons.prems that have "g r \<le> g x" by auto
      ultimately have "P r" using A3 by blast
      with False show False ..
    qed
    with False have allnP: "\<forall>x \<in> set (r # rs). \<not> P x" by simp
    have "filter M (r # rs) = takeWhile M (r # rs)"
      using Cons.prems allnP
    proof (rule filter_takeWhile_sorted[where M = M and P = P and g = g, rotated 1])
      show "M a" if "\<not> P a" "g a \<le> g b" "M b" for a b using that by (rule A2)
    qed
    with False show ?thesis by simp
  qed
qed

lemma scan_rows_enough:
  "\<forall>r \<in> set rs. unat (col cfg) \<le> length (columns cfg r) \<Longrightarrow>
   scan_rows cfg key rs =
     (unrows cfg (takeWhile (\<lambda>r. matches cfg key (key_column cfg r)) rs), None)"
  by (induction rs) (auto simp: unrows_def)

lemma matches_key_of:
  "matches cfg key (key_column cfg r) \<longleftrightarrow>
     (if exact_match cfg then key_of cfg r = map (transform cfg) key
      else prefix (map (transform cfg) key) (key_of cfg r))"
  by (auto simp: matches_def key_of_def)

lemma Run_search_rows:
  assumes nc: "\<not> check cfg" and c0: "col cfg \<noteq> 0"
    and en: "enough_columns cfg" and so: "key_sorted cfg"
  shows "Run cfg key =
     (unrows cfg (filter (\<lambda>r. matches cfg key (key_column cfg r)) (rows cfg)), None)"
proof (cases "mmap cfg = []")
  case True
  then show ?thesis
    by (simp add: Run_def Config_first_def Config_last_def rows_def unrows_def)
next
  case False
  let ?n = "length (mmap cfg)"
  let ?kk = "map (transform cfg) key"
  let ?P = "\<lambda>r. key_of cfg r < ?kk"
  let ?M = "\<lambda>r. matches cfg key (key_column cfg r)"
  let ?LB = "row_offset cfg (lower_bound cfg key)"
  have bs: "binary_search cfg (StringBlock_of key) (int 0) (int ?n) = Inr (int ?LB, int (min ?LB ?n))"
    and dr: "split_rows (row_sep cfg) (drop ?LB (mmap cfg)) = dropWhile ?P (rows cfg)"
    using binary_search_lower_bound[OF c0 en so, of 0 ?n key]
    by (simp_all add: row_start_def)
  have "\<forall>r \<in> set (dropWhile ?P (rows cfg)). unat (col cfg) \<le> length (columns cfg r)"
    using en by (auto simp: enough_columns_def dest: set_dropWhileD)
  note sr = scan_rows_enough[OF this, of key]
  have sl: "scan_loop cfg (StringBlock_of key) (int ?LB) (int ?n) [] =
      (unrows cfg (takeWhile ?M (dropWhile ?P (rows cfg))), None)"
    using scan_loop_rows[OF c0 valid_StringBlock_of, of key ?LB "[]"]
    by (simp add: dr sr)
  have A1: "\<not> ?P r" if "?M r" for r
    using that prefix_imp_le[of ?kk "key_of cfg r"]
    by (auto simp: matches_key_of split: if_splits)
  have A2: "?M a" if "\<not> ?P a" "key_of cfg a \<le> key_of cfg b" "?M b" for a b
    using that prefix_between[of ?kk "key_of cfg a" "key_of cfg b"]
    by (auto simp: matches_key_of split: if_splits)
  have A3: "?P a" if "?P b" "key_of cfg a \<le> key_of cfg b" for a b
    using that by simp
  have "filter ?M (rows cfg) = takeWhile ?M (dropWhile ?P (rows cfg))"
    using so[unfolded key_sorted_sorted]
  proof (rule filter_takeWhile_dropWhile_sorted[where M = ?M and P = ?P and g = "key_of cfg", rotated 3])
    show "\<not> ?P r" if "?M r" for r using that by (rule A1)
    show "?M a" if "\<not> ?P a" "key_of cfg a \<le> key_of cfg b" "?M b" for a b
      using that by (rule A2)
    show "?P a" if "?P b" "key_of cfg a \<le> key_of cfg b" for a b
      using that by (rule A3)
  qed
  with False nc bs sl show ?thesis
    by (simp add: Run_def Config_first_def Config_last_def)
qed


lemma row_offset_total:
  "row_offset cfg (length (rows cfg)) =
     (if mmap cfg = [] \<or> last (mmap cfg) = row_sep cfg then length (mmap cfg)
      else length (mmap cfg) + 1)"
  by (simp add: row_offset_def rows_def sum_split_rows_Suc)

lemma row_offset_nth:
  assumes "k < length (rows cfg)"
  shows "row_offset cfg k + length (rows cfg ! k) + 1 \<le> row_offset cfg (length (rows cfg))"
proof -
  have "sum_list (map (\<lambda>r. length r + 1) (take k (rows cfg) @ rows cfg ! k # drop (Suc k) (rows cfg)))
          = sum_list (map (\<lambda>r. length r + 1) (rows cfg))"
    using id_take_nth_drop[OF assms] by simp
  then show ?thesis by (simp add: row_offset_def)
qed

lemma row_bytes:
  assumes k: "k < length (rows cfg)"
  shows "bytes_in (mmap cfg) (int (row_offset cfg k))
           (int (row_offset cfg k) + int (length (rows cfg ! k))) = rows cfg ! k"
proof -
  let ?n = "length (mmap cfg)"
  let ?u = "\<lambda>rs. concat (map (\<lambda>r. r @ [row_sep cfg]) rs)"
  let ?U = "?u (rows cfg)"
  let ?a = "row_offset cfg k"
  let ?r = "rows cfg ! k"
  have U: "?U = (if mmap cfg = [] \<or> last (mmap cfg) = row_sep cfg then mmap cfg
                 else mmap cfg @ [row_sep cfg])"
    unfolding rows_def by (rule concat_split_rows)
  then have buf: "mmap cfg = take ?n ?U" by (simp split: if_splits)
  have "?U = ?u (take k (rows cfg) @ ?r # drop (Suc k) (rows cfg))"
    using id_take_nth_drop[OF k] by simp
  then have dec: "?U = ?u (take k (rows cfg)) @ ?r @ row_sep cfg # ?u (drop (Suc k) (rows cfg))"
    by simp
  have la: "length (?u (take k (rows cfg))) = ?a"
    by (simp add: row_offset_def length_concat_rows)
  have "drop ?a ?U = ?r @ row_sep cfg # ?u (drop (Suc k) (rows cfg))"
    by (subst dec) (simp add: la)
  then have t: "take (length ?r) (drop ?a ?U) = ?r" by simp
  from row_offset_nth[OF k] row_offset_total[of cfg] have le: "?a + length ?r \<le> ?n"
    by (simp split: if_splits)
  have "take (length ?r) (drop ?a (mmap cfg)) = take (length ?r) (drop ?a (take ?n ?U))"
    using buf by simp
  also have "\<dots> = take (length ?r) (take (?n - ?a) (drop ?a ?U))"
    by (simp only: drop_take)
  also have "\<dots> = take (length ?r) (drop ?a ?U)"
    using le by (simp add: min_def)
  finally have "take (length ?r) (drop ?a (mmap cfg)) = ?r" using t by simp
  moreover have "int ?a + int (length ?r) = int (?a + length ?r)" by simp
  ultimately show ?thesis
    by (simp only: bytes_in_nat) simp
qed

lemma lower_bound_props:
  "(\<forall>i < lower_bound cfg key. key_of cfg (rows cfg ! i) < map (transform cfg) key) \<and>
   (lower_bound cfg key < length (rows cfg) \<longrightarrow>
      map (transform cfg) key \<le> key_of cfg (rows cfg ! lower_bound cfg key))"
proof -
  let ?P = "\<lambda>r. key_of cfg r < map (transform cfg) key"
  have 1: "?P (rows cfg ! i)" if "i < lower_bound cfg key" for i
  proof -
    from that have i: "i < length (takeWhile ?P (rows cfg))" by (simp add: lower_bound_def)
    then have "takeWhile ?P (rows cfg) ! i \<in> set (takeWhile ?P (rows cfg))" by simp
    then have "?P (takeWhile ?P (rows cfg) ! i)" by (rule set_takeWhileD[THEN conjunct2])
    with i show ?thesis by (simp add: takeWhile_nth)
  qed
  have 2: "map (transform cfg) key \<le> key_of cfg (rows cfg ! lower_bound cfg key)"
    if "lower_bound cfg key < length (rows cfg)"
  proof -
    from that have "\<not> ?P (rows cfg ! length (takeWhile ?P (rows cfg)))"
      unfolding lower_bound_def by (rule nth_length_takeWhile)
    then show ?thesis by (simp add: lower_bound_def)
  qed
  from 1 2 show ?thesis by blast
qed



text \<open>
  C3, as the code has it. For a non-empty buffer whose rows are sorted by key and have
  the key column, the binary search loop ends with \<^verbatim>\<open>lb\<close> at the offset of the first
  row whose key is not below the search key: the bytes at \<^verbatim>\<open>lb\<close> are that row, and
  every row before it has a smaller key. When there is no such row, \<^verbatim>\<open>lb\<close> is the end
  of the buffer if the buffer ends with a row separator, and one past the end of the
  buffer if it does not: then the last assignment was \<^verbatim>\<open>lb = last + 1\<close> with \<^verbatim>\<open>last\<close>
  the end of the buffer, and the loop ends with \<^verbatim>\<open>lb\<close> one past \<^verbatim>\<open>ub\<close>. In every
  other case the loop ends with \<^verbatim>\<open>lb == ub\<close>.
\<close>

theorem binary_search_ends_at_lower_bound:
  assumes "mmap cfg \<noteq> []" and "col cfg \<noteq> 0" and "enough_columns cfg" and "key_sorted cfg"
  shows "\<exists>lb ub.
     binary_search cfg (StringBlock_of key) (Config_first cfg) (Config_last cfg)
       = Inr (int lb, int ub) \<and>
     lb = row_offset cfg (lower_bound cfg key) \<and>
     ub = min lb (length (mmap cfg)) \<and>
     (lb = ub \<longleftrightarrow>
        \<not> (lower_bound cfg key = length (rows cfg) \<and> last (mmap cfg) \<noteq> row_sep cfg)) \<and>
     (lb \<noteq> ub \<longrightarrow> lb = length (mmap cfg) + 1 \<and> ub = length (mmap cfg)) \<and>
     (lower_bound cfg key = length (rows cfg) \<longrightarrow>
        lb = (if last (mmap cfg) = row_sep cfg then length (mmap cfg)
              else length (mmap cfg) + 1)) \<and>
     (\<forall>i < lower_bound cfg key. key_of cfg (rows cfg ! i) < map (transform cfg) key) \<and>
     (lower_bound cfg key < length (rows cfg) \<longrightarrow>
        map (transform cfg) key \<le> key_of cfg (rows cfg ! lower_bound cfg key) \<and>
        bytes_in (mmap cfg) (int lb) (int lb + int (length (rows cfg ! lower_bound cfg key)))
          = rows cfg ! lower_bound cfg key)"
proof -
  let ?n = "length (mmap cfg)"
  let ?k = "lower_bound cfg key"
  let ?LB = "row_offset cfg ?k"
  have bs: "binary_search cfg (StringBlock_of key) (Config_first cfg) (Config_last cfg)
              = Inr (int ?LB, int (min ?LB ?n))"
    using binary_search_lower_bound[OF assms(2,3,4), of 0 ?n key]
    by (simp add: row_start_def Config_first_def Config_last_def)
  have kle: "?k \<le> length (rows cfg)"
    by (simp add: lower_bound_def length_takeWhile_le)
  have tot: "row_offset cfg (length (rows cfg)) =
      (if last (mmap cfg) = row_sep cfg then ?n else ?n + 1)"
    using row_offset_total[of cfg] assms(1) by simp
  have inner: "?LB \<le> ?n" if "?k \<noteq> length (rows cfg)"
  proof -
    from that kle have "?k < length (rows cfg)" by simp
    from row_offset_nth[OF this] tot show ?thesis by (simp split: if_splits)
  qed
  have none: "?k = length (rows cfg) \<longrightarrow>
      ?LB = (if last (mmap cfg) = row_sep cfg then ?n else ?n + 1)"
    using tot by simp
  have eq: "?LB = min ?LB ?n \<longleftrightarrow>
        \<not> (?k = length (rows cfg) \<and> last (mmap cfg) \<noteq> row_sep cfg)"
  proof (cases "?k = length (rows cfg)")
    case True
    with tot show ?thesis by (auto simp: min_def)
  next
    case False
    with inner show ?thesis by (simp add: min_def)
  qed
  have far: "?LB \<noteq> min ?LB ?n \<longrightarrow> ?LB = ?n + 1 \<and> min ?LB ?n = ?n"
  proof (cases "?k = length (rows cfg)")
    case True
    with tot show ?thesis by (auto simp: min_def)
  next
    case False
    with inner show ?thesis by (simp add: min_def)
  qed
  note lp = lower_bound_props[of cfg key]
  have rb: "bytes_in (mmap cfg) (int ?LB) (int ?LB + int (length (rows cfg ! ?k))) = rows cfg ! ?k"
    if "?k < length (rows cfg)"
    using that by (rule row_bytes)
  from bs eq far none lp rb show ?thesis by blast
qed

theorem binary_search_ends_at_lower_bound_witness:
  "binary_search (Config_default\<lparr>mmap := fruit\<rparr>) (StringBlock_of ''banana'')
     (Config_first (Config_default\<lparr>mmap := fruit\<rparr>)) (Config_last (Config_default\<lparr>mmap := fruit\<rparr>))
     = Inr (16, 16) \<and>
   lower_bound (Config_default\<lparr>mmap := fruit\<rparr>) ''banana'' = 2 \<and>
   row_offset (Config_default\<lparr>mmap := fruit\<rparr>) 2 = 16 \<and>
   binary_search (Config_default\<lparr>fold_flag := True, mmap := latin\<rparr>) (StringBlock_of [CHR 0xE9])
     (Config_first (Config_default\<lparr>fold_flag := True, mmap := latin\<rparr>))
     (Config_last (Config_default\<lparr>fold_flag := True, mmap := latin\<rparr>))
     = Inr (2, 2) \<and>
   binary_search (Config_default\<lparr>mmap := ''a'' @ [CHR 0x0A] @ ''b''\<rparr>) (StringBlock_of ''c'')
     (Config_first (Config_default\<lparr>mmap := ''a'' @ [CHR 0x0A] @ ''b''\<rparr>))
     (Config_last (Config_default\<lparr>mmap := ''a'' @ [CHR 0x0A] @ ''b''\<rparr>))
     = Inr (4, 3)"
proof -
  let ?c = "Config_default\<lparr>mmap := fruit\<rparr>"
  let ?d = "Config_default\<lparr>fold_flag := True, mmap := latin\<rparr>"
  let ?e = "Config_default\<lparr>mmap := ''a'' @ [CHR 0x0A] @ ''b''\<rparr>"
  have n: "mmap ?c \<noteq> []" "mmap ?d \<noteq> []" "mmap ?e \<noteq> []"
    by (simp_all add: fruit_def latin_def)
  have h: "col ?c \<noteq> 0" "col ?d \<noteq> 0" "col ?e \<noteq> 0" by (simp_all add: Config_default_def)
  have e: "enough_columns ?c" "enough_columns ?d" "enough_columns ?e" by code_simp+
  have "sorted (map (key_of ?c) (rows ?c))" "sorted (map (key_of ?d) (rows ?d))"
    "sorted (map (key_of ?e) (rows ?e))"
    by code_simp+
  then have s: "key_sorted ?c" "key_sorted ?d" "key_sorted ?e"
    by (simp_all add: key_sorted_sorted)
  have v: "lower_bound ?c ''banana'' = 2" "row_offset ?c 2 = 16"
    "row_offset ?d (lower_bound ?d [CHR 0xE9]) = 2" "row_offset ?e (lower_bound ?e ''c'') = 4"
    by code_simp+
  from binary_search_ends_at_lower_bound[OF n(1) h(1) e(1) s(1), of "''banana''"] v(1,2)
  have 1: "binary_search ?c (StringBlock_of ''banana'') (Config_first ?c) (Config_last ?c)
             = Inr (16, 16)"
    by (auto simp: fruit_def)
  from binary_search_ends_at_lower_bound[OF n(2) h(2) e(2) s(2), of "[CHR 0xE9]"] v(3)
  have 2: "binary_search ?d (StringBlock_of [CHR 0xE9]) (Config_first ?d) (Config_last ?d)
             = Inr (2, 2)"
    by (auto simp: latin_def)
  from binary_search_ends_at_lower_bound[OF n(3) h(3) e(3) s(3), of "''c''"] v(4)
  have 3: "binary_search ?e (StringBlock_of ''c'') (Config_first ?e) (Config_last ?e)
             = Inr (4, 3)"
    by auto
  from 1 2 3 v(1,2) show ?thesis by simp
qed

theorem binary_search_lb_eq_ub_counterexample:
  "mmap (Config_default\<lparr>mmap := ''a''\<rparr>) \<noteq> [] \<and>
   enough_columns (Config_default\<lparr>mmap := ''a''\<rparr>) \<and>
   key_sorted (Config_default\<lparr>mmap := ''a''\<rparr>) \<and>
   binary_search (Config_default\<lparr>mmap := ''a''\<rparr>) (StringBlock_of ''b'')
     (Config_first (Config_default\<lparr>mmap := ''a''\<rparr>)) (Config_last (Config_default\<lparr>mmap := ''a''\<rparr>))
     = Inr (2, 1) \<and>
   (2 :: int) \<noteq> 1 \<and>
   (2 :: int) \<noteq> Config_last (Config_default\<lparr>mmap := ''a''\<rparr>)"
proof -
  let ?c = "Config_default\<lparr>mmap := ''a''\<rparr>"
  have e: "enough_columns ?c" by code_simp
  have "sorted (map (key_of ?c) (rows ?c))" by code_simp
  then have s: "key_sorted ?c" by (simp add: key_sorted_sorted)
  have b: "binary_search ?c (StringBlock_of ''b'') (Config_first ?c) (Config_last ?c) = Inr (2, 1)"
    by code_simp
  have l: "(2 :: int) \<noteq> Config_last ?c" by (simp add: Config_last_def)
  from e s b l show ?thesis by simp
qed

text \<open>
  C1. In exact-match mode, for a buffer whose rows are sorted by key (each key not above
  the next, in the order of the transformed bytes) and have the key column, \<^verbatim>\<open>Run\<close>
  writes exactly the rows whose transformed key equals the transformed search key, each
  followed by the row separator, in the order of the file, and throws nothing.
\<close>

theorem exact_search_emits_equal_rows:
  assumes "\<not> check cfg" and "exact_match cfg" and "col cfg \<noteq> 0"
    and "enough_columns cfg" and "key_sorted cfg"
  shows "Run cfg key =
     (concat (map (\<lambda>r. r @ [row_sep cfg])
        (filter (\<lambda>r. map (transform cfg) (key_column cfg r) = map (transform cfg) key)
                (rows cfg))),
      None)"
proof -
  have "(\<lambda>r. matches cfg key (key_column cfg r))
          = (\<lambda>r. map (transform cfg) (key_column cfg r) = map (transform cfg) key)"
    using assms(2) by (auto simp: matches_def)
  with Run_search_rows[OF assms(1,3,4,5), of key] show ?thesis
    by (simp add: unrows_def)
qed

theorem exact_search_emits_equal_rows_witness:
  "Run (Config_default\<lparr>exact_match := True, mmap := fruit\<rparr>) ''banana''
     = (''banana'' @ [CHR 0x09] @ ''3'' @ [CHR 0x0A] @ ''banana'' @ [CHR 0x09] @ ''4'' @ [CHR 0x0A],
        None) \<and>
   Run (Config_default\<lparr>exact_match := True, fold_flag := True, mmap := latin\<rparr>) [CHR 0xE9]
     = ([CHR 0xE9, CHR 0x0A], None) \<and>
   Run (Config_default\<lparr>exact_match := True, fold_flag := True, mmap := latin\<rparr>) ''A''
     = (''a'' @ [CHR 0x0A], None)"
proof -
  let ?c = "Config_default\<lparr>exact_match := True, mmap := fruit\<rparr>"
  let ?d = "Config_default\<lparr>exact_match := True, fold_flag := True, mmap := latin\<rparr>"
  have h: "\<not> check ?c" "exact_match ?c" "col ?c \<noteq> 0"
    "\<not> check ?d" "exact_match ?d" "col ?d \<noteq> 0"
    by (simp_all add: Config_default_def)
  have e: "enough_columns ?c" "enough_columns ?d" by code_simp+
  have "sorted (map (key_of ?c) (rows ?c))" "sorted (map (key_of ?d) (rows ?d))"
    by code_simp+
  then have s: "key_sorted ?c" "key_sorted ?d" by (simp_all add: key_sorted_sorted)
  have 1: "concat (map (\<lambda>r. r @ [row_sep ?c])
        (filter (\<lambda>r. map (transform ?c) (key_column ?c r) = map (transform ?c) ''banana'')
                (rows ?c)))
     = ''banana'' @ [CHR 0x09] @ ''3'' @ [CHR 0x0A] @ ''banana'' @ [CHR 0x09] @ ''4'' @ [CHR 0x0A]"
    by code_simp
  have 2: "concat (map (\<lambda>r. r @ [row_sep ?d])
        (filter (\<lambda>r. map (transform ?d) (key_column ?d r) = map (transform ?d) [CHR 0xE9])
                (rows ?d)))
     = [CHR 0xE9, CHR 0x0A]"
    by code_simp
  have 3: "concat (map (\<lambda>r. r @ [row_sep ?d])
        (filter (\<lambda>r. map (transform ?d) (key_column ?d r) = map (transform ?d) ''A'')
                (rows ?d)))
     = ''a'' @ [CHR 0x0A]"
    by code_simp
  from exact_search_emits_equal_rows[OF h(1,2,3) e(1) s(1), of "''banana''"] 1
    exact_search_emits_equal_rows[OF h(4,5,6) e(2) s(2), of "[CHR 0xE9]"] 2
    exact_search_emits_equal_rows[OF h(4,5,6) e(2) s(2), of "''A''"] 3
  show ?thesis by simp
qed

text \<open>
  C2. In the default mode, under the same conditions, \<^verbatim>\<open>Run\<close> writes exactly the
  rows whose transformed key has the transformed search key as a prefix, each followed by
  the row separator, in the order of the file, and throws nothing.
\<close>

theorem prefix_search_emits_prefixed_rows:
  assumes "\<not> check cfg" and "\<not> exact_match cfg" and "col cfg \<noteq> 0"
    and "enough_columns cfg" and "key_sorted cfg"
  shows "Run cfg key =
     (concat (map (\<lambda>r. r @ [row_sep cfg])
        (filter (\<lambda>r. prefix (map (transform cfg) key) (map (transform cfg) (key_column cfg r)))
                (rows cfg))),
      None)"
proof -
  have "(\<lambda>r. matches cfg key (key_column cfg r))
          = (\<lambda>r. prefix (map (transform cfg) key) (map (transform cfg) (key_column cfg r)))"
    using assms(2) by (auto simp: matches_def)
  with Run_search_rows[OF assms(1,3,4,5), of key] show ?thesis
    by (simp add: unrows_def)
qed

theorem prefix_search_emits_prefixed_rows_witness:
  "Run (Config_default\<lparr>fold_flag := True, mmap := fruit\<rparr>) ''BAN''
     = (''banana'' @ [CHR 0x09] @ ''3'' @ [CHR 0x0A] @ ''banana'' @ [CHR 0x09] @ ''4'' @ [CHR 0x0A],
        None) \<and>
   Run (Config_default\<lparr>fold_flag := True, mmap := latin\<rparr>) [CHR 0xE9]
     = ([CHR 0xE9, CHR 0x0A], None) \<and>
   Run (Config_default\<lparr>mmap := fruit\<rparr>) ''ban''
     = (''banana'' @ [CHR 0x09] @ ''3'' @ [CHR 0x0A] @ ''banana'' @ [CHR 0x09] @ ''4'' @ [CHR 0x0A],
        None)"
proof -
  let ?c = "Config_default\<lparr>fold_flag := True, mmap := fruit\<rparr>"
  let ?d = "Config_default\<lparr>fold_flag := True, mmap := latin\<rparr>"
  let ?e = "Config_default\<lparr>mmap := fruit\<rparr>"
  have h: "\<not> check ?c" "\<not> exact_match ?c" "col ?c \<noteq> 0"
    "\<not> check ?d" "\<not> exact_match ?d" "col ?d \<noteq> 0"
    "\<not> check ?e" "\<not> exact_match ?e" "col ?e \<noteq> 0"
    by (simp_all add: Config_default_def)
  have e: "enough_columns ?c" "enough_columns ?d" "enough_columns ?e" by code_simp+
  have "sorted (map (key_of ?c) (rows ?c))" "sorted (map (key_of ?d) (rows ?d))"
    "sorted (map (key_of ?e) (rows ?e))"
    by code_simp+
  then have s: "key_sorted ?c" "key_sorted ?d" "key_sorted ?e"
    by (simp_all add: key_sorted_sorted)
  have 1: "concat (map (\<lambda>r. r @ [row_sep ?c])
        (filter (\<lambda>r. prefix (map (transform ?c) ''BAN'') (map (transform ?c) (key_column ?c r)))
                (rows ?c)))
     = ''banana'' @ [CHR 0x09] @ ''3'' @ [CHR 0x0A] @ ''banana'' @ [CHR 0x09] @ ''4'' @ [CHR 0x0A]"
    by code_simp
  have 2: "concat (map (\<lambda>r. r @ [row_sep ?d])
        (filter (\<lambda>r. prefix (map (transform ?d) [CHR 0xE9]) (map (transform ?d) (key_column ?d r)))
                (rows ?d)))
     = [CHR 0xE9, CHR 0x0A]"
    by code_simp
  have 3: "concat (map (\<lambda>r. r @ [row_sep ?e])
        (filter (\<lambda>r. prefix (map (transform ?e) ''ban'') (map (transform ?e) (key_column ?e r)))
                (rows ?e)))
     = ''banana'' @ [CHR 0x09] @ ''3'' @ [CHR 0x0A] @ ''banana'' @ [CHR 0x09] @ ''4'' @ [CHR 0x0A]"
    by code_simp
  from prefix_search_emits_prefixed_rows[OF h(1,2,3) e(1) s(1), of "''BAN''"] 1
    prefix_search_emits_prefixed_rows[OF h(4,5,6) e(2) s(2), of "[CHR 0xE9]"] 2
    prefix_search_emits_prefixed_rows[OF h(7,8,9) e(3) s(3), of "''ban''"] 3
  show ?thesis by simp
qed

end
